theory Spec2Isabelle
  imports Main "HOL-Library.Sublist"
begin

section \<open>The receptionist of the restaurant simulation\<close>

text \<open>
  A shallow embedding of \<^verbatim>\<open>semSharedMemReceptionist.c\<close>: the receptionist process of a
  restaurant simulation synchronised by System V semaphores over a shared memory region.

  The embedding is sequential: it follows the receptionist's own thread of control. The
  other processes appear only through an environment that says what each semaphore call
  returns, which request a group has left in the shared slot when the receptionist is
  woken, and what unmapping the shared region returns. C \<^verbatim>\<open>int\<close> values are modelled by
  \<^typ>\<open>int\<close>. The counters of the program move by one for each request served, and their
  overflow is not part of the model; the product \<^verbatim>\<open>sh->fSt.nGroups*2\<close> of the loop of
  \<^verbatim>\<open>main\<close> is taken on an input, and it is computed in 32 bits, as \<open>int32\<close> says.
\<close>

subsection \<open>Constants\<close>

text \<open>The ledger phases, \<^verbatim>\<open>#define\<close>d at the top of the source file.\<close>

definition TOARRIVE :: int where "TOARRIVE = 0"
definition WAIT :: int where "WAIT = 1"
definition ATTABLE :: int where "ATTABLE = 2"
definition DONE :: int where "DONE = 3"

text \<open>The exit statuses of \<^verbatim>\<open>stdlib.h\<close>.\<close>

definition EXIT_SUCCESS :: int where "EXIT_SUCCESS = 0"
definition EXIT_FAILURE :: int where "EXIT_FAILURE = 1"

text \<open>
  The constants of \<^verbatim>\<open>probConst.h\<close>, a header that is not part of the sources at hand:
  they are parameters of every function below. \<open>MAXGROUPS\<close> is the length of the ledger
  \<^verbatim>\<open>groupRecord\<close> and the bound of both scans. The shared arrays are declared in headers
  that are not at hand either; their lengths follow the specification, which has one
  assignment entry and one ``table granted'' signal per group (\<^verbatim>\<open>assignedTable\<close> and
  \<^verbatim>\<open>waitForTable\<close>, of length \<open>MAXGROUPS\<close>) and one ``table vacated'' signal per table
  (\<^verbatim>\<open>tableDone\<close>, whose length is the parameter \<open>NUMTABLES\<close>). The two request kinds are
  the labels of one \<^verbatim>\<open>switch\<close>, hence different.
\<close>

record probConst =
  MAXGROUPS :: nat
  NUMTABLES :: nat
  TABLEREQ :: int
  BILLREQ :: int
  WAIT_FOR_REQUEST :: int
  ASSIGNTABLE :: int
  RECVPAY :: int

subsection \<open>Data\<close>

record request =
  reqType :: int
  reqGroup :: int

text \<open>The semaphores of \<^verbatim>\<open>SHARED_DATA\<close>; the two arrays are indexed as in the source.\<close>

datatype sem =
  mutex
  | receptionistReq
  | receptionistRequestPossible
  | waitForTable int
  | tableDone int

text \<open>
  What the receptionist does that another process or the log can observe, in program
  order: semaphore calls, the publication of its status, \<^verbatim>\<open>saveState\<close> with the status
  it logs, and the copy of the pending request out of the shared slot.
\<close>

datatype event =
  SemDown sem
  | SemUp sem
  | SetStatus int
  | SaveState int
  | CopyRequest request

text \<open>
  The fields of \<^verbatim>\<open>sh->fSt\<close> that the receptionist uses, its private ledger
  \<^verbatim>\<open>groupRecord\<close>, and the history of events so far.
\<close>

record rstate =
  nGroups :: int
  receptionistStat :: int
  assignedTable :: "int list"
  groupsWaiting :: int
  receptionistRequest :: request
  groupRecord :: "int list"
  trace :: "event list"

text \<open>
  The environment, as a function of the length of the history: \<open>semRet\<close> is what the
  semaphore call issued at that point returns (\<open>-1\<close> is failure), \<open>incoming\<close> the request
  a group has written into the slot by the time the receptionist is woken there.
  \<open>shmemDettach\<close> is what unmapping the shared region returns. A call that blocks is
  taken to return: a wait that never ends is outside the model, and so is every write
  of another process to the shared region but the delivery of a request.
\<close>

record env =
  semRet :: "nat \<Rightarrow> int"
  incoming :: "nat \<Rightarrow> request"
  shmemDettach :: int

subsection \<open>Outcomes\<close>

text \<open>
  A function of the source returns a value, leaves the process through \<^verbatim>\<open>exit\<close> (or the
  return of \<^verbatim>\<open>main\<close>) with a status, or indexes an array out of its range, which C leaves
  undefined: the model stops there and names the array and the index.
\<close>

datatype arr = A_groupRecord | A_assignedTable | A_waitForTable | A_tableDone

datatype 'a outcome = Return 'a | Exit int | OutOfRange arr int

type_synonym 'a prog = "rstate \<Rightarrow> 'a outcome \<times> rstate"

definition ret :: "'a \<Rightarrow> 'a prog" where
  "ret v s = (Return v, s)"

definition seq :: "'a prog \<Rightarrow> ('a \<Rightarrow> 'b prog) \<Rightarrow> 'b prog" where
  "seq m f s =
     (case m s of
        (Return v, s') \<Rightarrow> f v s'
      | (Exit c, s') \<Rightarrow> (Exit c, s')
      | (OutOfRange a i, s') \<Rightarrow> (OutOfRange a i, s'))"

definition inRange :: "int \<Rightarrow> nat \<Rightarrow> bool" where
  "inRange i n \<longleftrightarrow> 0 \<le> i \<and> i < int n"

subsection \<open>Primitive steps\<close>

text \<open>
  Every semaphore call of the source has the shape
  \<^verbatim>\<open>if (semDown (semgid, x) == -1) { perror (...); exit (EXIT_FAILURE); }\<close>;
  \<open>semDown\<close> and \<open>semUp\<close> are the call together with that check.
\<close>

definition semDown :: "env \<Rightarrow> sem \<Rightarrow> unit prog" where
  "semDown e x s =
     (if semRet e (length (trace s)) = -1
      then (Exit EXIT_FAILURE, s\<lparr>trace := trace s @ [SemDown x]\<rparr>)
      else (Return (), s\<lparr>trace := trace s @ [SemDown x]\<rparr>))"

definition semUp :: "env \<Rightarrow> sem \<Rightarrow> unit prog" where
  "semUp e x s =
     (if semRet e (length (trace s)) = -1
      then (Exit EXIT_FAILURE, s\<lparr>trace := trace s @ [SemUp x]\<rparr>)
      else (Return (), s\<lparr>trace := trace s @ [SemUp x]\<rparr>))"

text \<open>\<^verbatim>\<open>sh->fSt.st.receptionistStat = v; saveState (nFic, &sh->fSt);\<close>\<close>

definition setStatus :: "int \<Rightarrow> unit prog" where
  "setStatus v s =
     (Return (), s\<lparr>receptionistStat := v, trace := trace s @ [SetStatus v]\<rparr>)"

definition saveState :: "unit prog" where
  "saveState s = (Return (), s\<lparr>trace := trace s @ [SaveState (receptionistStat s)]\<rparr>)"

text \<open>
  The environment's step: by the time \<^verbatim>\<open>semDown (semgid, sh->receptionistReq)\<close> returns,
  a group has written its request into the shared slot.
\<close>

definition deliver :: "env \<Rightarrow> unit prog" where
  "deliver e s = (Return (), s\<lparr>receptionistRequest := incoming e (length (trace s))\<rparr>)"

text \<open>\<^verbatim>\<open>req = sh->fSt.receptionistRequest;\<close>\<close>

definition copyRequest :: "request prog" where
  "copyRequest s =
     (Return (receptionistRequest s),
      s\<lparr>trace := trace s @ [CopyRequest (receptionistRequest s)]\<rparr>)"

text \<open>Reads and writes of the two arrays, and the selection of a semaphore of an array.\<close>

definition readAssigned :: "int \<Rightarrow> int prog" where
  "readAssigned n s =
     (if inRange n (length (assignedTable s))
      then (Return (assignedTable s ! nat n), s)
      else (OutOfRange A_assignedTable n, s))"

definition writeAssigned :: "int \<Rightarrow> int \<Rightarrow> unit prog" where
  "writeAssigned n v s =
     (if inRange n (length (assignedTable s))
      then (Return (), s\<lparr>assignedTable := (assignedTable s)[nat n := v]\<rparr>)
      else (OutOfRange A_assignedTable n, s))"

definition writeRecord :: "int \<Rightarrow> int \<Rightarrow> unit prog" where
  "writeRecord n v s =
     (if inRange n (length (groupRecord s))
      then (Return (), s\<lparr>groupRecord := (groupRecord s)[nat n := v]\<rparr>)
      else (OutOfRange A_groupRecord n, s))"

definition waitForTableSem :: "probConst \<Rightarrow> int \<Rightarrow> sem prog" where
  "waitForTableSem K n s =
     (if inRange n (MAXGROUPS K) then (Return (waitForTable n), s)
      else (OutOfRange A_waitForTable n, s))"

definition tableDoneSem :: "probConst \<Rightarrow> int \<Rightarrow> sem prog" where
  "tableDoneSem K t s =
     (if inRange t (NUMTABLES K) then (Return (tableDone t), s)
      else (OutOfRange A_tableDone t, s))"

subsection \<open>The allocation policy\<close>

text \<open>
  The loop of \<^verbatim>\<open>decideTableOrWait\<close> over \<^verbatim>\<open>sh->fSt.assignedTable\<close>, from index \<open>i\<close> with
  the current \<^verbatim>\<open>tableId\<close> and \<^verbatim>\<open>num_tables\<close>; \<open>None\<close> is a read beyond the array.
\<close>

function scanTables :: "probConst \<Rightarrow> int list \<Rightarrow> nat \<Rightarrow> int \<Rightarrow> int \<Rightarrow> int option" where
  "scanTables K tbl i tableId num_tables =
     (if i < MAXGROUPS K then
        (if length tbl \<le> i then None
         else if tbl ! i = 1 then
           (if num_tables = 0 then scanTables K tbl (i + 1) 0 (num_tables + 1)
            else Some (-1))
         else if tbl ! i = 0 then
           (if num_tables = 0 then scanTables K tbl (i + 1) 1 (num_tables + 1)
            else Some (-1))
         else scanTables K tbl (i + 1) tableId num_tables)
      else Some tableId)"
  by pat_completeness auto
termination
  by (relation "measure (\<lambda>(K, tbl, i, tableId, num_tables). MAXGROUPS K - i)") auto

declare scanTables.simps [simp del]

text \<open>
  \<^verbatim>\<open>decideTableOrWait\<close> (lines 150 to 188): the scan, then \<^verbatim>\<open>groupRecord[n] = ATTABLE\<close> and
  the table id, or \<^verbatim>\<open>groupRecord[n] = WAIT\<close>, \<^verbatim>\<open>sh->fSt.groupsWaiting++\<close> and \<open>-1\<close>.
\<close>

definition decideTableOrWait :: "probConst \<Rightarrow> int \<Rightarrow> int prog" where
  "decideTableOrWait K n s =
     (case scanTables K (assignedTable s) 0 0 0 of
        None \<Rightarrow> (OutOfRange A_assignedTable (int (length (assignedTable s))), s)
      | Some tableId \<Rightarrow>
          if tableId \<noteq> -1 then
            seq (writeRecord n ATTABLE) (\<lambda>_. ret tableId) s
          else
            seq (writeRecord n WAIT) (\<lambda>_ s'.
              (Return (-1), s'\<lparr>groupsWaiting := groupsWaiting s' + 1\<rparr>)) s)"

text \<open>The loop of \<^verbatim>\<open>decideNextGroup\<close> over the ledger, from index \<open>g\<close>.\<close>

function nextGroupLoop :: "probConst \<Rightarrow> nat \<Rightarrow> int prog" where
  "nextGroupLoop K g s =
     (if g < MAXGROUPS K then
        (if length (groupRecord s) \<le> g then (OutOfRange A_groupRecord (int g), s)
         else if groupRecord s ! g = WAIT then
           (Return (int g),
            s\<lparr>groupRecord := (groupRecord s)[g := ATTABLE],
              groupsWaiting := groupsWaiting s - 1\<rparr>)
         else nextGroupLoop K (g + 1) s)
      else (Return (-1), s))"
  by pat_completeness auto
termination
  by (relation "measure (\<lambda>(K, g, s). MAXGROUPS K - g)") auto

declare nextGroupLoop.simps [simp del]

text \<open>
  \<^verbatim>\<open>decideNextGroup\<close> (lines 198 to 215): \<open>-1\<close> at once when the counter is zero, otherwise
  the scan, whose end is the final \<^verbatim>\<open>return -1\<close>.
\<close>

definition decideNextGroup :: "probConst \<Rightarrow> int prog" where
  "decideNextGroup K s =
     (if groupsWaiting s = 0 then (Return (-1), s) else nextGroupLoop K 0 s)"

subsection \<open>The three operations\<close>

text \<open>
  \<^verbatim>\<open>waitForGroup\<close> (lines 226 to 269), \<^verbatim>\<open>provideTableOrWaitingRoom\<close> (lines 280 to 308)
  and \<^verbatim>\<open>receivePayment\<close> (lines 320 to 359), statement by statement.
\<close>

definition waitForGroup :: "env \<Rightarrow> probConst \<Rightarrow> request prog" where
  "waitForGroup e K =
     seq (semDown e mutex) (\<lambda>_.
     seq (setStatus (WAIT_FOR_REQUEST K)) (\<lambda>_.
     seq saveState (\<lambda>_.
     seq (semUp e mutex) (\<lambda>_.
     seq (semDown e receptionistReq) (\<lambda>_.
     seq (deliver e) (\<lambda>_.
     seq (semDown e mutex) (\<lambda>_.
     seq copyRequest (\<lambda>req.
     seq (semUp e mutex) (\<lambda>_.
     seq (semUp e receptionistRequestPossible) (\<lambda>_.
     ret req))))))))))"

definition provideTableOrWaitingRoom :: "env \<Rightarrow> probConst \<Rightarrow> int \<Rightarrow> unit prog" where
  "provideTableOrWaitingRoom e K n =
     seq (semDown e mutex) (\<lambda>_.
     seq (setStatus (ASSIGNTABLE K)) (\<lambda>_.
     seq saveState (\<lambda>_.
     seq (decideTableOrWait K n) (\<lambda>tableId.
     seq (if tableId \<noteq> -1 then
            seq (writeAssigned n tableId) (\<lambda>_.
            seq (waitForTableSem K n) (\<lambda>x.
            semUp e x))
          else ret ()) (\<lambda>_.
     semUp e mutex)))))"

definition receivePayment :: "env \<Rightarrow> probConst \<Rightarrow> int \<Rightarrow> unit prog" where
  "receivePayment e K n =
     seq (semDown e mutex) (\<lambda>_.
     seq (setStatus (RECVPAY K)) (\<lambda>_.
     seq saveState (\<lambda>_.
     seq (readAssigned n) (\<lambda>tableId.
     seq (decideNextGroup K) (\<lambda>groupId.
     seq (if groupId \<noteq> -1 then
            seq (writeAssigned groupId tableId) (\<lambda>_.
            seq (writeRecord n DONE) (\<lambda>_.
            seq (waitForTableSem K groupId) (\<lambda>x.
            semUp e x)))
          else ret ()) (\<lambda>_.
     seq (writeAssigned n (-1)) (\<lambda>_.
     seq (semUp e mutex) (\<lambda>_.
     seq (tableDoneSem K tableId) (\<lambda>x.
     semUp e x)))))))))"

subsection \<open>The life cycle\<close>

text \<open>The \<^verbatim>\<open>switch\<close> of \<^verbatim>\<open>main\<close>: it has two cases and no default.\<close>

definition dispatch :: "env \<Rightarrow> probConst \<Rightarrow> request \<Rightarrow> unit prog" where
  "dispatch e K req =
     (if reqType req = TABLEREQ K then provideTableOrWaitingRoom e K (reqGroup req)
      else if reqType req = BILLREQ K then receivePayment e K (reqGroup req)
      else ret ())"

text \<open>
  The loop of \<^verbatim>\<open>main\<close> reads \<^verbatim>\<open>sh->fSt.nGroups\<close> at every iteration. It ends because no step
  of the receptionist writes that field, which is what \<open>keepsGroups\<close> says of a program.
\<close>

definition keepsGroups :: "'a prog \<Rightarrow> bool" where
  "keepsGroups m \<longleftrightarrow> (\<forall>s. nGroups (snd (m s)) = nGroups s)"

text \<open>
  The value that a 32-bit \<^verbatim>\<open>int\<close> holds when the result of an operation is \<open>x\<close>: \<open>x\<close>
  itself when it lies between \<open>-2\<^sup>3\<^sup>1\<close> and \<open>2\<^sup>3\<^sup>1 - 1\<close>, and otherwise the value that
  two's-complement arithmetic leaves, \<open>x\<close> wrapped around modulo \<open>2\<^sup>3\<^sup>2\<close>. (C leaves the
  overflow of a signed product undefined; this is what the machine computes.)
\<close>

definition int32 :: "int \<Rightarrow> int" where
  "int32 x = (x + 2147483648) mod 4294967296 - 2147483648"

text \<open>
  \<^verbatim>\<open>while (nReq < sh->fSt.nGroups*2) { req = waitForGroup (); switch ...; nReq++; }\<close>,
  returning the final \<^verbatim>\<open>nReq\<close>. The product is the 32-bit one. Inside the loop \<^verbatim>\<open>nReq\<close>
  is below a 32-bit value, so that \<^verbatim>\<open>nReq++\<close> does not overflow.
\<close>

function mainLoop :: "env \<Rightarrow> probConst \<Rightarrow> int \<Rightarrow> int prog" where
  "mainLoop e K nReq s =
     (if nReq < int32 (nGroups s * 2) then
        (case seq (waitForGroup e K) (dispatch e K) s of
           (Return _, s') \<Rightarrow> mainLoop e K (nReq + 1) s'
         | (Exit c, s') \<Rightarrow> (Exit c, s')
         | (OutOfRange a i, s') \<Rightarrow> (OutOfRange a i, s'))
      else (Return nReq, s))"
  by pat_completeness auto
termination
proof (relation "measure (\<lambda>(e, K, nReq, s). nat (int32 (nGroups s * 2) - nReq))")
  show "wf (measure (\<lambda>(e, K, nReq, s). nat (int32 (nGroups s * 2) - nReq)))"
    by simp
next
  fix e :: env and K :: probConst and nReq :: int and s s' :: rstate
    and r :: "unit outcome" and v :: unit
  assume less: "nReq < int32 (nGroups s * 2)"
    and run: "(r, s') = seq (waitForGroup e K) (dispatch e K) s"
    and res: "r = Return v"
  have k_seq: "\<And>m f. keepsGroups m \<Longrightarrow> (\<And>v. keepsGroups (f v)) \<Longrightarrow> keepsGroups (seq m f)"
    unfolding keepsGroups_def seq_def
    by (auto split: prod.splits outcome.splits) (metis snd_conv)+
  have k_ret: "\<And>v. keepsGroups (ret v)"
    by (simp add: keepsGroups_def ret_def)
  have k_prim: "\<And>x. keepsGroups (semDown e x)" "\<And>x. keepsGroups (semUp e x)"
    "\<And>v. keepsGroups (setStatus v)" "keepsGroups saveState" "keepsGroups (deliver e)"
    "keepsGroups copyRequest" "\<And>n. keepsGroups (readAssigned n)"
    "\<And>n v. keepsGroups (writeAssigned n v)" "\<And>n v. keepsGroups (writeRecord n v)"
    "\<And>n. keepsGroups (waitForTableSem K n)" "\<And>n. keepsGroups (tableDoneSem K n)"
    by (simp_all add: keepsGroups_def semDown_def semUp_def setStatus_def saveState_def
        deliver_def copyRequest_def readAssigned_def writeAssigned_def writeRecord_def
        waitForTableSem_def tableDoneSem_def)
  have k_next: "\<And>g. keepsGroups (nextGroupLoop K g)"
  proof -
    fix g
    have "nGroups (snd (nextGroupLoop K g t)) = nGroups t" for t
      by (induction K g t rule: nextGroupLoop.induct)
        (subst nextGroupLoop.simps, simp)
    then show "keepsGroups (nextGroupLoop K g)"
      by (simp add: keepsGroups_def)
  qed
  have k_dng: "keepsGroups (decideNextGroup K)"
    using k_next [of 0] by (simp add: keepsGroups_def decideNextGroup_def)
  have k_dtw: "\<And>n. keepsGroups (decideTableOrWait K n)"
    by (simp add: keepsGroups_def decideTableOrWait_def seq_def writeRecord_def ret_def
        split: option.splits)
  have k_wait: "keepsGroups (waitForGroup e K)"
    unfolding waitForGroup_def by (intro k_seq k_prim k_ret)
  have k_prov: "\<And>n. keepsGroups (provideTableOrWaitingRoom e K n)"
    unfolding provideTableOrWaitingRoom_def
    by (intro k_seq k_prim k_ret k_dtw) (auto intro!: k_seq k_prim k_ret)
  have k_pay: "\<And>n. keepsGroups (receivePayment e K n)"
    unfolding receivePayment_def
    by (intro k_seq k_prim k_ret k_dng) (auto intro!: k_seq k_prim k_ret)
  have k_disp: "\<And>q. keepsGroups (dispatch e K q)"
    by (simp add: dispatch_def k_prov k_pay k_ret)
  have "keepsGroups (seq (waitForGroup e K) (dispatch e K))"
    by (intro k_seq k_wait k_disp)
  then have "nGroups s' = nGroups s"
    using run res by (metis keepsGroups_def snd_conv)
  then show "((e, K, nReq + 1, s'), (e, K, nReq, s)) \<in> measure (\<lambda>(e, K, nReq, s). nat (int32 (nGroups s * 2) - nReq))"
    using less by simp
qed

declare mainLoop.simps [simp del]

text \<open>
  \<^verbatim>\<open>main\<close> from the comment ``simulation of the life cycle of the receptionist'' to its
  end: the loop, then the unmapping of the shared region, whose failure returns
  \<^verbatim>\<open>EXIT_FAILURE\<close>. The return of \<^verbatim>\<open>main\<close> is the exit of the process.
\<close>

definition lifeCycle :: "env \<Rightarrow> probConst \<Rightarrow> unit prog" where
  "lifeCycle e K s =
     (case mainLoop e K 0 s of
        (Return nReq, s') \<Rightarrow>
          if shmemDettach e = -1 then (Exit EXIT_FAILURE, s') else (Exit EXIT_SUCCESS, s')
      | (Exit c, s') \<Rightarrow> (Exit c, s')
      | (OutOfRange a i, s') \<Rightarrow> (OutOfRange a i, s'))"

subsection \<open>Properties of a state\<close>

text \<open>The arrays have the length the headers declare.\<close>

definition wellFormed :: "probConst \<Rightarrow> rstate \<Rightarrow> bool" where
  "wellFormed K s \<longleftrightarrow>
     length (assignedTable s) = MAXGROUPS K \<and> length (groupRecord s) = MAXGROUPS K"

text \<open>The counter of waiting groups agrees with the ledger.\<close>

definition waitingConsistent :: "rstate \<Rightarrow> bool" where
  "waitingConsistent s \<longleftrightarrow>
     groupsWaiting s = int (length (filter (\<lambda>p. p = WAIT) (groupRecord s)))"

text \<open>No table id other than the sentinel \<open>-1\<close> is bound to two groups.\<close>

definition noDoubleBooking :: "rstate \<Rightarrow> bool" where
  "noDoubleBooking s \<longleftrightarrow> distinct (filter (\<lambda>t. t \<noteq> -1) (assignedTable s))"

text \<open>Which events are semaphore calls, and which are copies of the request slot.\<close>

fun isSem :: "event \<Rightarrow> bool" where
  "isSem (SemDown x) = True"
| "isSem (SemUp x) = True"
| "isSem _ = False"

fun isCopy :: "event \<Rightarrow> bool" where
  "isCopy (CopyRequest q) = True"
| "isCopy _ = False"

text \<open>The event at position \<open>k\<close> of the history \<open>tr\<close> is a semaphore call that failed.\<close>

definition failedAt :: "env \<Rightarrow> event list \<Rightarrow> nat \<Rightarrow> bool" where
  "failedAt e tr k \<longleftrightarrow> k < length tr \<and> isSem (tr ! k) \<and> semRet e k = -1"

text \<open>
  The states that sequences of completed operations reach from \<open>s0\<close>; each operation
  runs in an environment of its own.
\<close>

inductive reachable :: "probConst \<Rightarrow> rstate \<Rightarrow> rstate \<Rightarrow> bool" for K s0 where
  start: "reachable K s0 s0"
| wait: "reachable K s0 s \<Longrightarrow> waitForGroup e K s = (Return q, s') \<Longrightarrow> reachable K s0 s'"
| provide: "reachable K s0 s \<Longrightarrow> provideTableOrWaitingRoom e K n s = (Return (), s')
    \<Longrightarrow> reachable K s0 s'"
| pay: "reachable K s0 s \<Longrightarrow> receivePayment e K n s = (Return (), s') \<Longrightarrow> reachable K s0 s'"

subsection \<open>Sample inputs\<close>

text \<open>
  A restaurant of three groups and two tables, an environment in which no call fails and
  every request is a table request of group 0, and a state at opening time.
\<close>

definition sampleConst :: probConst where
  "sampleConst =
     \<lparr>MAXGROUPS = 3, NUMTABLES = 2, TABLEREQ = 1, BILLREQ = 2,
      WAIT_FOR_REQUEST = 0, ASSIGNTABLE = 1, RECVPAY = 2\<rparr>"

definition calm :: env where
  "calm = \<lparr>semRet = (\<lambda>k. 0), incoming = (\<lambda>k. \<lparr>reqType = 1, reqGroup = 0\<rparr>),
     shmemDettach = 0\<rparr>"

definition atOpening :: rstate where
  "atOpening =
     \<lparr>nGroups = 3, receptionistStat = 0, assignedTable = [-1, -1, -1], groupsWaiting = 0,
      receptionistRequest = \<lparr>reqType = 1, reqGroup = 0\<rparr>,
      groupRecord = [TOARRIVE, TOARRIVE, TOARRIVE], trace = []\<rparr>"

text \<open>Group 0 is seated at table 0 and nobody waits.\<close>

definition seated :: rstate where
  "seated = atOpening\<lparr>assignedTable := [0, -1, -1], groupRecord := [ATTABLE, TOARRIVE, TOARRIVE]\<rparr>"

text \<open>Group 0 is seated at table 0, groups 1 and 2 wait.\<close>

definition queued :: rstate where
  "queued = atOpening\<lparr>assignedTable := [0, -1, -1], groupsWaiting := 2,
     groupRecord := [ATTABLE, WAIT, WAIT]\<rparr>"

text \<open>The counter says that one group waits, the ledger has no waiting group.\<close>

definition stale :: rstate where
  "stale = atOpening\<lparr>assignedTable := [-1, 1, 0], groupsWaiting := 1,
     groupRecord := [DONE, ATTABLE, ATTABLE]\<rparr>"

text \<open>Groups 0 and 1 hold the two tables, group 2 waits.\<close>

definition full :: rstate where
  "full = atOpening\<lparr>assignedTable := [0, 1, -1], groupsWaiting := 1,
     groupRecord := [ATTABLE, ATTABLE, WAIT]\<rparr>"

text \<open>A restaurant that expects one group only.\<close>

definition oneGroup :: rstate where
  "oneGroup = atOpening\<lparr>nGroups := 1\<rparr>"

text \<open>An environment whose requests are all of a kind the receptionist does not know.\<close>

definition odd :: env where
  "odd = calm\<lparr>incoming := (\<lambda>k. \<lparr>reqType = 7, reqGroup = 0\<rparr>)\<rparr>"

subsection \<open>The order of steps the specification gives for \<^verbatim>\<open>waitForGroup\<close>\<close>

text \<open>
  Publish the status under the lock, release the lock, block on ``request available'',
  reacquire the lock, copy out the pending request \<open>q\<close>, release the lock, signal
  ``slot free''.
\<close>

definition waitForGroupOrder :: "probConst \<Rightarrow> request \<Rightarrow> event list" where
  "waitForGroupOrder K q =
     [SemDown mutex, SetStatus (WAIT_FOR_REQUEST K), SaveState (WAIT_FOR_REQUEST K),
      SemUp mutex, SemDown receptionistReq, SemDown mutex, CopyRequest q, SemUp mutex,
      SemUp receptionistRequestPossible]"

subsection \<open>Properties of a run\<close>

text \<open>
  A run of \<open>m\<close> from \<open>s\<close> only adds events to the history, and it leaves through \<^verbatim>\<open>exit\<close>
  exactly when a semaphore call fails: the failed call is then its last event and the
  status is \<^verbatim>\<open>EXIT_FAILURE\<close>.
\<close>

definition failStop :: "env \<Rightarrow> 'a prog \<Rightarrow> rstate \<Rightarrow> bool" where
  "failStop e m s \<longleftrightarrow>
     (case m s of (r, s') \<Rightarrow>
        (\<exists>evs. trace s' = trace s @ evs)
        \<and> (\<forall>k. length (trace s) \<le> k \<and> failedAt e (trace s') k
              \<longrightarrow> r = Exit EXIT_FAILURE \<and> Suc k = length (trace s'))
        \<and> (\<forall>c. r = Exit c
              \<longrightarrow> length (trace s) < length (trace s')
                \<and> failedAt e (trace s') (length (trace s') - 1)))"

text \<open>A run of \<open>m\<close> from \<open>s\<close> keeps \<^verbatim>\<open>nGroups\<close> and takes no request out of the slot.\<close>

definition quiet :: "'a prog \<Rightarrow> rstate \<Rightarrow> bool" where
  "quiet m s \<longleftrightarrow>
     (case m s of (r, s') \<Rightarrow>
        nGroups s' = nGroups s \<and> filter isCopy (trace s') = filter isCopy (trace s))"

subsection \<open>Sample environments\<close>

text \<open>Group 0 asks for a table, and then for the bill.\<close>

definition oneVisit :: env where
  "oneVisit = calm\<lparr>incoming :=
     (\<lambda>k. if k < 10 then \<lparr>reqType = 1, reqGroup = 0\<rparr> else \<lparr>reqType = 2, reqGroup = 0\<rparr>)\<rparr>"

text \<open>The same visit, after which the unmapping of the shared region fails.\<close>

definition detachFails :: env where
  "detachFails = oneVisit\<lparr>shmemDettach := -1\<rparr>"

text \<open>The fourth event, the first release of the lock, fails.\<close>

definition jammed :: env where
  "jammed = calm\<lparr>semRet := (\<lambda>k. if k = 3 then -1 else 0)\<rparr>"

section \<open>Auxiliary facts\<close>

lemma int32_fits: "- 2147483648 \<le> x \<Longrightarrow> x < 2147483648 \<Longrightarrow> int32 x = x"
  by (simp add: int32_def)

lemma int32_double:
  "- 1073741824 \<le> n \<Longrightarrow> n < 1073741824 \<Longrightarrow> int32 (n * 2) = n * 2"
  by (rule int32_fits) simp_all

lemma phases_distinct:
  "TOARRIVE \<noteq> WAIT" "WAIT \<noteq> ATTABLE" "WAIT \<noteq> DONE" "ATTABLE \<noteq> DONE" "TOARRIVE \<noteq> ATTABLE"
  by (simp_all add: TOARRIVE_def WAIT_def ATTABLE_def DONE_def)

subsection \<open>Sequencing\<close>

lemma seq_Return: "m s = (Return v, t) \<Longrightarrow> seq m f s = f v t"
  by (simp add: seq_def)

lemma seq_Exit: "m s = (Exit c, t) \<Longrightarrow> seq m f s = (Exit c, t)"
  by (simp add: seq_def)

lemma seq_OutOfRange: "m s = (OutOfRange a i, t) \<Longrightarrow> seq m f s = (OutOfRange a i, t)"
  by (simp add: seq_def)

lemma seq_ReturnD:
  "seq m f s = (Return v, s') \<Longrightarrow> \<exists>w t. m s = (Return w, t) \<and> f w t = (Return v, s')"
  by (auto simp: seq_def split: prod.splits outcome.splits)

subsection \<open>The scan of the ledger\<close>

lemma nextGroupLoop_none:
  "MAXGROUPS K \<le> length (groupRecord s) \<Longrightarrow>
   (\<forall>h. g \<le> h \<and> h < MAXGROUPS K \<longrightarrow> groupRecord s ! h \<noteq> WAIT) \<Longrightarrow>
   nextGroupLoop K g s = (Return (-1), s)"
proof (induction K g s rule: nextGroupLoop.induct)
  case (1 K g s)
  show ?case
  proof (cases "g < MAXGROUPS K")
    case True
    then have "groupRecord s ! g \<noteq> WAIT" and "\<not> length (groupRecord s) \<le> g"
      using "1.prems" by auto
    moreover from this True have "nextGroupLoop K (g + 1) s = (Return (-1), s)"
      using "1.IH" "1.prems" by simp
    ultimately show ?thesis
      using True by (subst nextGroupLoop.simps) simp
  next
    case False
    then show ?thesis by (subst nextGroupLoop.simps) simp
  qed
qed

lemma nextGroupLoop_found:
  "MAXGROUPS K \<le> length (groupRecord s) \<Longrightarrow> g \<le> w \<Longrightarrow> w < MAXGROUPS K \<Longrightarrow>
   groupRecord s ! w = WAIT \<Longrightarrow>
   (\<forall>h. g \<le> h \<and> h < w \<longrightarrow> groupRecord s ! h \<noteq> WAIT) \<Longrightarrow>
   nextGroupLoop K g s =
     (Return (int w),
      s\<lparr>groupRecord := (groupRecord s)[w := ATTABLE], groupsWaiting := groupsWaiting s - 1\<rparr>)"
proof (induction K g s rule: nextGroupLoop.induct)
  case (1 K g s)
  have inside: "g < MAXGROUPS K" "\<not> length (groupRecord s) \<le> g"
    using "1.prems" by auto
  show ?case
  proof (cases "g = w")
    case True
    then show ?thesis
      using inside "1.prems" by (subst nextGroupLoop.simps) simp
  next
    case False
    then have here: "groupRecord s ! g \<noteq> WAIT" and later: "g + 1 \<le> w"
      using "1.prems" by auto
    have "nextGroupLoop K (g + 1) s =
      (Return (int w),
       s\<lparr>groupRecord := (groupRecord s)[w := ATTABLE], groupsWaiting := groupsWaiting s - 1\<rparr>)"
      using "1.IH" [OF inside here] "1.prems" later by simp
    then show ?thesis
      using inside here by (subst nextGroupLoop.simps) simp
  qed
qed

lemma nextGroupLoop_no_candidate:
  "nextGroupLoop K g s = (Return (-1), s') \<Longrightarrow> s' = s"
proof (induction K g s rule: nextGroupLoop.induct)
  case (1 K g s)
  from "1.prems" show ?case
    by (subst (asm) nextGroupLoop.simps) (auto split: if_splits dest: "1.IH")
qed

subsection \<open>Symbolic execution of the steps\<close>

named_theorems exec

lemma seq_semDown [exec]:
  "seq (semDown e x) f s =
     (if semRet e (length (trace s)) = -1
      then (Exit EXIT_FAILURE, s\<lparr>trace := trace s @ [SemDown x]\<rparr>)
      else f () (s\<lparr>trace := trace s @ [SemDown x]\<rparr>))"
  by (simp add: seq_def semDown_def)

lemma seq_semUp [exec]:
  "seq (semUp e x) f s =
     (if semRet e (length (trace s)) = -1
      then (Exit EXIT_FAILURE, s\<lparr>trace := trace s @ [SemUp x]\<rparr>)
      else f () (s\<lparr>trace := trace s @ [SemUp x]\<rparr>))"
  by (simp add: seq_def semUp_def)

lemma seq_setStatus [exec]:
  "seq (setStatus v) f s = f () (s\<lparr>receptionistStat := v, trace := trace s @ [SetStatus v]\<rparr>)"
  by (simp add: seq_def setStatus_def)

lemma seq_saveState [exec]:
  "seq saveState f s = f () (s\<lparr>trace := trace s @ [SaveState (receptionistStat s)]\<rparr>)"
  by (simp add: seq_def saveState_def)

lemma seq_deliver [exec]:
  "seq (deliver e) f s = f () (s\<lparr>receptionistRequest := incoming e (length (trace s))\<rparr>)"
  by (simp add: seq_def deliver_def)

lemma seq_copyRequest [exec]:
  "seq copyRequest f s =
     f (receptionistRequest s) (s\<lparr>trace := trace s @ [CopyRequest (receptionistRequest s)]\<rparr>)"
  by (simp add: seq_def copyRequest_def)

lemma seq_ret [exec]: "seq (ret v) f s = f v s"
  by (simp add: seq_def ret_def)

lemma seq_readAssigned [exec]:
  "seq (readAssigned n) f s =
     (if inRange n (length (assignedTable s)) then f (assignedTable s ! nat n) s
      else (OutOfRange A_assignedTable n, s))"
  by (simp add: seq_def readAssigned_def)

lemma seq_writeAssigned [exec]:
  "seq (writeAssigned n v) f s =
     (if inRange n (length (assignedTable s))
      then f () (s\<lparr>assignedTable := (assignedTable s)[nat n := v]\<rparr>)
      else (OutOfRange A_assignedTable n, s))"
  by (simp add: seq_def writeAssigned_def)

lemma seq_writeRecord [exec]:
  "seq (writeRecord n v) f s =
     (if inRange n (length (groupRecord s))
      then f () (s\<lparr>groupRecord := (groupRecord s)[nat n := v]\<rparr>)
      else (OutOfRange A_groupRecord n, s))"
  by (simp add: seq_def writeRecord_def)

lemma seq_waitForTableSem [exec]:
  "seq (waitForTableSem K n) f s =
     (if inRange n (MAXGROUPS K) then f (waitForTable n) s
      else (OutOfRange A_waitForTable n, s))"
  by (simp add: seq_def waitForTableSem_def)

lemma seq_tableDoneSem [exec]:
  "seq (tableDoneSem K t) f s =
     (if inRange t (NUMTABLES K) then f (tableDone t) s
      else (OutOfRange A_tableDone t, s))"
  by (simp add: seq_def tableDoneSem_def)

lemma seq_if [exec]:
  "seq (if b then m else m') f s = (if b then seq m f s else seq m' f s)"
  by simp

lemma seq_assoc [exec]: "seq (seq m f) g = seq m (\<lambda>v. seq (f v) g)"
  by (auto simp: seq_def fun_eq_iff split: prod.splits outcome.splits)

lemma seq_decideTableOrWait [exec]:
  "seq (decideTableOrWait K n) f s =
     (case scanTables K (assignedTable s) 0 0 0 of
        None \<Rightarrow> (OutOfRange A_assignedTable (int (length (assignedTable s))), s)
      | Some t \<Rightarrow>
          if inRange n (length (groupRecord s)) then
            (if t \<noteq> -1 then f t (s\<lparr>groupRecord := (groupRecord s)[nat n := ATTABLE]\<rparr>)
             else f (-1) (s\<lparr>groupRecord := (groupRecord s)[nat n := WAIT],
                             groupsWaiting := groupsWaiting s + 1\<rparr>))
          else (OutOfRange A_groupRecord n, s))"
  by (simp add: seq_def decideTableOrWait_def writeRecord_def ret_def split: option.splits)

lemma seq_decideNextGroup [exec]:
  "seq (decideNextGroup K) f s =
     (case decideNextGroup K s of
        (Return v, s') \<Rightarrow> f v s'
      | (Exit c, s') \<Rightarrow> (Exit c, s')
      | (OutOfRange a i, s') \<Rightarrow> (OutOfRange a i, s'))"
  by (simp add: seq_def)

lemmas run_simps = exec semUp_def ret_def

lemma decideNextGroup_none:
  "groupsWaiting s = 0 \<or> (MAXGROUPS K \<le> length (groupRecord s) \<and> WAIT \<notin> set (groupRecord s))
   \<Longrightarrow> decideNextGroup K s = (Return (-1), s)"
proof (cases "groupsWaiting s = 0")
  case True
  then show ?thesis by (simp add: decideNextGroup_def)
next
  case False
  assume "groupsWaiting s = 0 \<or> (MAXGROUPS K \<le> length (groupRecord s) \<and> WAIT \<notin> set (groupRecord s))"
  with False have len: "MAXGROUPS K \<le> length (groupRecord s)"
    and "WAIT \<notin> set (groupRecord s)" by auto
  then have "\<forall>h. 0 \<le> h \<and> h < MAXGROUPS K \<longrightarrow> groupRecord s ! h \<noteq> WAIT"
    by (metis nth_mem less_le_trans)
  then have "nextGroupLoop K 0 s = (Return (-1), s)"
    using len by (intro nextGroupLoop_none) simp_all
  with False show ?thesis by (simp add: decideNextGroup_def)
qed

lemma decideNextGroup_found:
  "groupsWaiting s \<noteq> 0 \<Longrightarrow> MAXGROUPS K \<le> length (groupRecord s) \<Longrightarrow> g < MAXGROUPS K \<Longrightarrow>
   groupRecord s ! g = WAIT \<Longrightarrow> (\<forall>h<g. groupRecord s ! h \<noteq> WAIT) \<Longrightarrow>
   decideNextGroup K s =
     (Return (int g),
      s\<lparr>groupRecord := (groupRecord s)[g := ATTABLE], groupsWaiting := groupsWaiting s - 1\<rparr>)"
  using nextGroupLoop_found [of K s 0 g] by (simp add: decideNextGroup_def)

lemma first_waiting:
  assumes "WAIT \<in> set xs"
  obtains g where "g < length xs" "xs ! g = WAIT" "\<forall>h<g. xs ! h \<noteq> WAIT"
proof -
  from assms have "\<exists>i. i < length xs \<and> xs ! i = WAIT"
    by (simp add: in_set_conv_nth)
  then have "\<exists>g. (g < length xs \<and> xs ! g = WAIT) \<and> (\<forall>h<g. \<not> (h < length xs \<and> xs ! h = WAIT))"
    by (simp only: exists_least_iff [symmetric])
  then obtain g where g: "g < length xs" "xs ! g = WAIT"
    and least: "\<forall>h<g. \<not> (h < length xs \<and> xs ! h = WAIT)" by blast
  from g(1) least have "\<forall>h<g. xs ! h \<noteq> WAIT" by auto
  with g that show thesis by blast
qed

text \<open>What a completed payment has done to the allocation state.\<close>

lemma receivePayment_Return:
  assumes wf: "wellFormed K s" and run: "receivePayment e K n s = (Return (), s')"
  shows "inRange n (MAXGROUPS K) \<and>
    ((groupsWaiting s = 0 \<or> WAIT \<notin> set (groupRecord s))
       \<and> assignedTable s' = (assignedTable s)[nat n := -1]
       \<and> groupRecord s' = groupRecord s \<and> groupsWaiting s' = groupsWaiting s
     \<or> (\<exists>g<MAXGROUPS K. groupsWaiting s \<noteq> 0 \<and> groupRecord s ! g = WAIT
          \<and> (\<forall>h<g. groupRecord s ! h \<noteq> WAIT)
          \<and> assignedTable s' = (assignedTable s)[g := assignedTable s ! nat n, nat n := -1]
          \<and> groupRecord s' = (groupRecord s)[g := ATTABLE, nat n := DONE]
          \<and> groupsWaiting s' = groupsWaiting s - 1))"
proof (cases "groupsWaiting s = 0 \<or> WAIT \<notin> set (groupRecord s)")
  case True
  then have "groupsWaiting s = 0 \<or> (MAXGROUPS K \<le> length (groupRecord s) \<and> WAIT \<notin> set (groupRecord s))"
    using wf by (auto simp: wellFormed_def)
  then show ?thesis
    using run wf True
    by (auto simp: receivePayment_def run_simps decideNextGroup_none wellFormed_def
        split: if_splits)
next
  case False
  then obtain g where g: "g < length (groupRecord s)" "groupRecord s ! g = WAIT"
    "\<forall>h<g. groupRecord s ! h \<noteq> WAIT"
    using first_waiting by blast
  have gw: "groupsWaiting s \<noteq> 0" using False by simp
  have gK: "g < MAXGROUPS K" and len: "MAXGROUPS K \<le> length (groupRecord s)"
    using g wf by (simp_all add: wellFormed_def)
  show ?thesis
    using run wf gw g gK
    by (auto simp: receivePayment_def run_simps decideNextGroup_found [where g = g]
        wellFormed_def inRange_def split: if_splits)
qed

lemma filter_length_update:
  "i < length xs \<Longrightarrow>
   length (filter P (xs[i := v])) + (if P (xs ! i) then 1 else 0) =
     length (filter P xs) + (if P v then 1 else 0)"
proof (induction xs arbitrary: i)
  case Nil
  then show ?case by simp
next
  case (Cons a xs)
  show ?case
  proof (cases i)
    case 0
    then show ?thesis by simp
  next
    case (Suc k)
    then have "k < length xs" using Cons.prems by simp
    from Cons.IH [OF this] Suc show ?thesis by simp
  qed
qed

lemma booking_clear:
  "distinct (filter P xs) \<Longrightarrow> \<not> P v \<Longrightarrow> distinct (filter P (xs[i := v]))"
proof (induction xs arbitrary: i)
  case Nil
  then show ?case by simp
next
  case (Cons a xs)
  show ?case
  proof (cases i)
    case 0
    then show ?thesis using Cons.prems by (auto split: if_splits)
  next
    case (Suc k)
    have "a \<in> set (xs[k := v]) \<Longrightarrow> a = v \<or> a \<in> set xs"
      using set_update_subset_insert [of xs k v] by auto
    then show ?thesis
      using Suc Cons.prems Cons.IH [of k] by (auto split: if_splits)
  qed
qed

lemma booking_fresh:
  "distinct (filter P xs) \<Longrightarrow> v \<notin> set xs \<Longrightarrow> distinct (filter P (xs[i := v]))"
proof (induction xs arbitrary: i)
  case Nil
  then show ?case by simp
next
  case (Cons a xs)
  show ?case
  proof (cases i)
    case 0
    then show ?thesis using Cons.prems by (auto split: if_splits)
  next
    case (Suc k)
    have "a \<in> set (xs[k := v]) \<Longrightarrow> a = v \<or> a \<in> set xs"
      using set_update_subset_insert [of xs k v] by auto
    then show ?thesis
      using Suc Cons.prems Cons.IH [of k] by (auto split: if_splits)
  qed
qed

lemma booking_moved:
  "distinct (filter P xs) \<Longrightarrow> n < length xs \<Longrightarrow> P (xs ! n) \<Longrightarrow> xs ! n \<noteq> w \<Longrightarrow>
   xs ! n \<notin> set (xs[n := w])"
proof (induction xs arbitrary: n)
  case Nil
  then show ?case by simp
next
  case (Cons a xs)
  show ?case
  proof (cases n)
    case 0
    then show ?thesis using Cons.prems by (auto split: if_splits)
  next
    case (Suc k)
    then have "xs ! k \<in> set xs" using Cons.prems by simp
    then show ?thesis
      using Suc Cons.prems Cons.IH [of k] by (auto split: if_splits)
  qed
qed

lemma scanTables_fresh_aux:
  "scanTables K tbl i tid num = Some t \<Longrightarrow> t \<noteq> -1 \<Longrightarrow>
   (num \<noteq> 0 \<longrightarrow> t = tid \<and> (\<forall>j. i \<le> j \<and> j < MAXGROUPS K \<longrightarrow> tbl ! j \<noteq> 0 \<and> tbl ! j \<noteq> 1)) \<and>
   (num = 0 \<and> (tid = 0 \<or> tid = 1) \<longrightarrow>
      (t = 0 \<or> t = 1) \<and> (\<forall>j. i \<le> j \<and> j < MAXGROUPS K \<longrightarrow> tbl ! j \<noteq> t))"
proof (induction K tbl i tid num rule: scanTables.induct)
  case (1 K tbl i tableId num_tables)
  show ?case
  proof (cases "i < MAXGROUPS K")
    case False
    then show ?thesis using "1.prems" by (subst (asm) scanTables.simps) auto
  next
    case True
    have split: "\<And>j. i \<le> j \<longleftrightarrow> j = i \<or> i + 1 \<le> j" by auto
    from "1.prems"(1) True have len: "\<not> length tbl \<le> i"
      by (subst (asm) scanTables.simps) (auto split: if_splits)
    show ?thesis
    proof (cases "tbl ! i = 1")
      case one: True
      then have z: "num_tables = 0" and rec: "scanTables K tbl (i + 1) 0 (num_tables + 1) = Some t"
        using "1.prems" True len by (subst (asm) scanTables.simps, auto split: if_splits)+
      from "1.IH"(1) [OF True len one z rec "1.prems"(2)] z one
      show ?thesis by (auto simp: split)
    next
      case notone: False
      show ?thesis
      proof (cases "tbl ! i = 0")
        case zero: True
        then have z: "num_tables = 0" and rec: "scanTables K tbl (i + 1) 1 (num_tables + 1) = Some t"
          using "1.prems" True len notone by (subst (asm) scanTables.simps, auto split: if_splits)+
        from "1.IH"(2) [OF True len notone zero z rec "1.prems"(2)] z zero
        show ?thesis by (auto simp: split)
      next
        case other: False
        then have rec: "scanTables K tbl (i + 1) tableId num_tables = Some t"
          using "1.prems" True len notone by (subst (asm) scanTables.simps) (auto split: if_splits)
        from "1.IH"(3) [OF True len notone other rec "1.prems"(2)] notone other
        show ?thesis by (auto simp: split)
      qed
    qed
  qed
qed

lemma scanTables_fresh:
  assumes "scanTables K tbl 0 0 0 = Some t" and "t \<noteq> -1" and "length tbl = MAXGROUPS K"
  shows "t \<notin> set tbl" and "t = 0 \<or> t = 1"
proof -
  from scanTables_fresh_aux [OF assms(1,2)]
  have *: "(t = 0 \<or> t = 1) \<and> (\<forall>j. j < MAXGROUPS K \<longrightarrow> tbl ! j \<noteq> t)" by simp
  then show "t \<notin> set tbl" using assms(3) by (auto simp: in_set_conv_nth)
  from * show "t = 0 \<or> t = 1" by simp
qed

text \<open>What a completed table request has done to the allocation state.\<close>

lemma provideTableOrWaitingRoom_Return:
  assumes run: "provideTableOrWaitingRoom e K n s = (Return (), s')"
  shows "inRange n (length (groupRecord s)) \<and>
    ((\<exists>t. scanTables K (assignedTable s) 0 0 0 = Some t \<and> t \<noteq> -1
        \<and> inRange n (length (assignedTable s))
        \<and> assignedTable s' = (assignedTable s)[nat n := t]
        \<and> groupRecord s' = (groupRecord s)[nat n := ATTABLE]
        \<and> groupsWaiting s' = groupsWaiting s)
     \<or> (scanTables K (assignedTable s) 0 0 0 = Some (-1)
        \<and> assignedTable s' = assignedTable s
        \<and> groupRecord s' = (groupRecord s)[nat n := WAIT]
        \<and> groupsWaiting s' = groupsWaiting s + 1))"
  using run
  by (auto simp: provideTableOrWaitingRoom_def run_simps split: if_splits option.splits)

lemma waitForGroup_Return:
  assumes "waitForGroup e K s = (Return q, s')"
  shows "assignedTable s' = assignedTable s \<and> groupRecord s' = groupRecord s
    \<and> groupsWaiting s' = groupsWaiting s"
  using assms by (auto simp: waitForGroup_def run_simps split: if_splits)

lemma waiting_update:
  assumes "i < length xs" and "xs ! i \<noteq> WAIT"
  shows "int (length (filter (\<lambda>p. p = WAIT) (xs[i := v]))) =
    int (length (filter (\<lambda>p. p = WAIT) xs)) + (if v = WAIT then 1 else 0)"
  using filter_length_update [OF assms(1), of "\<lambda>p. p = WAIT" v] assms(2) by simp

lemma waiting_seated:
  assumes "i < length xs" and "xs ! i = WAIT"
  shows "int (length (filter (\<lambda>p. p = WAIT) (xs[i := ATTABLE]))) =
    int (length (filter (\<lambda>p. p = WAIT) xs)) - 1"
  using filter_length_update [OF assms(1), of "\<lambda>p. p = WAIT" ATTABLE] assms(2)
  by (simp add: phases_distinct [symmetric])

lemma provide_waitingConsistent:
  assumes "waitingConsistent s" and "groupRecord s ! nat n \<noteq> WAIT"
    and run: "provideTableOrWaitingRoom e K n s = (Return (), s')"
  shows "waitingConsistent s'"
proof -
  from provideTableOrWaitingRoom_Return [OF run]
  have n: "nat n < length (groupRecord s)"
    and cases: "groupRecord s' = (groupRecord s)[nat n := ATTABLE] \<and> groupsWaiting s' = groupsWaiting s
      \<or> groupRecord s' = (groupRecord s)[nat n := WAIT] \<and> groupsWaiting s' = groupsWaiting s + 1"
    by (auto simp: inRange_def)
  from cases show ?thesis
    using assms(1,2) waiting_update [OF n assms(2)]
    by (auto simp: waitingConsistent_def phases_distinct [symmetric])
qed

lemma pay_waitingConsistent:
  assumes wf: "wellFormed K s" and "waitingConsistent s" and "groupRecord s ! nat n \<noteq> WAIT"
    and run: "receivePayment e K n s = (Return (), s')"
  shows "waitingConsistent s'"
proof -
  from receivePayment_Return [OF wf run]
  have n: "nat n < length (groupRecord s)"
    and cases: "groupRecord s' = groupRecord s \<and> groupsWaiting s' = groupsWaiting s
      \<or> (\<exists>g<MAXGROUPS K. groupRecord s ! g = WAIT
           \<and> groupRecord s' = (groupRecord s)[g := ATTABLE, nat n := DONE]
           \<and> groupsWaiting s' = groupsWaiting s - 1)"
    using wf by (auto simp: inRange_def wellFormed_def)
  from cases show ?thesis
  proof
    assume "groupRecord s' = groupRecord s \<and> groupsWaiting s' = groupsWaiting s"
    then show ?thesis using assms(2) by (simp add: waitingConsistent_def)
  next
    assume "\<exists>g<MAXGROUPS K. groupRecord s ! g = WAIT
           \<and> groupRecord s' = (groupRecord s)[g := ATTABLE, nat n := DONE]
           \<and> groupsWaiting s' = groupsWaiting s - 1"
    then obtain g where g: "g < length (groupRecord s)" "groupRecord s ! g = WAIT"
      and s': "groupRecord s' = (groupRecord s)[g := ATTABLE, nat n := DONE]"
        "groupsWaiting s' = groupsWaiting s - 1"
      using wf by (auto simp: wellFormed_def)
    have "(groupRecord s)[g := ATTABLE] ! nat n \<noteq> WAIT"
      using assms(3) g(1) by (simp add: nth_list_update phases_distinct [symmetric])
    moreover have "nat n < length ((groupRecord s)[g := ATTABLE])" using n by simp
    ultimately have "int (length (filter (\<lambda>p. p = WAIT) (groupRecord s'))) =
      int (length (filter (\<lambda>p. p = WAIT) ((groupRecord s)[g := ATTABLE])))"
      unfolding s' using waiting_update [of "nat n" "(groupRecord s)[g := ATTABLE]" DONE]
      by (simp add: phases_distinct [symmetric])
    also have "\<dots> = int (length (filter (\<lambda>p. p = WAIT) (groupRecord s))) - 1"
      using waiting_seated [OF g] .
    finally show ?thesis
      using assms(2) s'(2) by (simp add: waitingConsistent_def)
  qed
qed

lemma step_wellFormed:
  assumes "wellFormed K s"
  shows "provideTableOrWaitingRoom e K n s = (Return (), s') \<Longrightarrow> wellFormed K s'"
    and "receivePayment e K n s = (Return (), s') \<Longrightarrow> wellFormed K s'"
    and "waitForGroup e K s = (Return q, s') \<Longrightarrow> wellFormed K s'"
proof -
  show "provideTableOrWaitingRoom e K n s = (Return (), s') \<Longrightarrow> wellFormed K s'"
    using assms by (auto dest!: provideTableOrWaitingRoom_Return simp: wellFormed_def)
  show "receivePayment e K n s = (Return (), s') \<Longrightarrow> wellFormed K s'"
    using assms receivePayment_Return [OF assms, of e n s'] by (auto simp: wellFormed_def)
  show "waitForGroup e K s = (Return q, s') \<Longrightarrow> wellFormed K s'"
    using assms by (auto dest!: waitForGroup_Return simp: wellFormed_def)
qed

lemma provide_noDoubleBooking:
  assumes wf: "wellFormed K s" and ok: "noDoubleBooking s"
    and run: "provideTableOrWaitingRoom e K n s = (Return (), s')"
  shows "noDoubleBooking s'"
proof -
  from provideTableOrWaitingRoom_Return [OF run]
  consider t where "scanTables K (assignedTable s) 0 0 0 = Some t" "t \<noteq> -1"
      "assignedTable s' = (assignedTable s)[nat n := t]"
    | "assignedTable s' = assignedTable s"
    by blast
  then show ?thesis
  proof cases
    case 1
    then have "t \<notin> set (assignedTable s)"
      using scanTables_fresh(1) wf by (simp add: wellFormed_def)
    then show ?thesis
      using ok 1(3) by (simp add: noDoubleBooking_def booking_fresh)
  next
    case 2
    then show ?thesis using ok by (simp add: noDoubleBooking_def)
  qed
qed

lemma pay_noDoubleBooking:
  assumes wf: "wellFormed K s" and ok: "noDoubleBooking s"
    and run: "receivePayment e K n s = (Return (), s')"
  shows "noDoubleBooking s'"
proof -
  let ?P = "\<lambda>t::int. t \<noteq> -1"
  let ?tbl = "assignedTable s"
  have d: "distinct (filter ?P ?tbl)" using ok by (simp add: noDoubleBooking_def)
  have cleared: "distinct (filter ?P (?tbl[nat n := -1]))"
    using d by (rule booking_clear) simp
  from receivePayment_Return [OF wf run]
  have n: "nat n < length ?tbl"
    and cases: "assignedTable s' = ?tbl[nat n := -1]
      \<or> (\<exists>g. assignedTable s' = ?tbl[g := ?tbl ! nat n, nat n := -1])"
    using wf by (auto simp: inRange_def wellFormed_def)
  from cases show ?thesis
  proof
    assume "assignedTable s' = ?tbl[nat n := -1]"
    then show ?thesis using cleared by (simp add: noDoubleBooking_def)
  next
    assume "\<exists>g. assignedTable s' = ?tbl[g := ?tbl ! nat n, nat n := -1]"
    then obtain g where s': "assignedTable s' = ?tbl[g := ?tbl ! nat n, nat n := -1]" ..
    show ?thesis
    proof (cases "g = nat n")
      case True
      then show ?thesis using s' cleared by (simp add: noDoubleBooking_def)
    next
      case False
      then have swap: "assignedTable s' = ?tbl[nat n := -1, g := ?tbl ! nat n]"
        using s' by (simp add: list_update_swap)
      show ?thesis
      proof (cases "?tbl ! nat n = -1")
        case True
        then show ?thesis
          using swap booking_clear [OF cleared, of "-1" g] by (simp add: noDoubleBooking_def)
      next
        case False
        then have "?tbl ! nat n \<notin> set (?tbl[nat n := -1])"
          using booking_moved [OF d n, of "-1"] by simp
        then show ?thesis
          using swap booking_fresh [OF cleared] by (simp add: noDoubleBooking_def)
      qed
    qed
  qed
qed

lemma decideTableOrWait_no_table:
  "fst (decideTableOrWait K n s) = Return (-1) \<longleftrightarrow>
   scanTables K (assignedTable s) 0 0 0 = Some (-1) \<and> inRange n (length (groupRecord s))"
  by (auto simp: decideTableOrWait_def seq_def writeRecord_def ret_def
      split: option.splits if_splits)

lemma five_steps: "n + 5 = Suc (Suc (Suc (Suc (Suc n))))"
  by simp

lemma waitForGroup_calm:
  assumes "\<forall>k. semRet e k \<noteq> -1"
  shows "waitForGroup e K s =
    (Return (incoming e (length (trace s) + 5)),
     s\<lparr>receptionistStat := WAIT_FOR_REQUEST K,
       receptionistRequest := incoming e (length (trace s) + 5),
       trace := trace s @ waitForGroupOrder K (incoming e (length (trace s) + 5))\<rparr>)"
  using assms by (simp add: waitForGroup_def run_simps waitForGroupOrder_def five_steps)

lemma waitForGroup_trace:
  "\<exists>evs. trace (snd (waitForGroup e K s)) = trace s @ evs
     \<and> prefix evs (waitForGroupOrder K (incoming e (length (trace s) + 5)))"
  by (simp add: waitForGroup_def run_simps waitForGroupOrder_def five_steps)

lemma waitForGroup_Return_trace:
  assumes "waitForGroup e K s = (Return q, s')"
  shows "q = incoming e (length (trace s) + 5) \<and> trace s' = trace s @ waitForGroupOrder K q
    \<and> nGroups s' = nGroups s"
  using assms
  by (auto simp: waitForGroup_def run_simps waitForGroupOrder_def five_steps split: if_splits)

lemma dispatch_unknown:
  "reqType q \<noteq> TABLEREQ K \<Longrightarrow> reqType q \<noteq> BILLREQ K \<Longrightarrow> dispatch e K q s = (Return (), s)"
  by (simp add: dispatch_def ret_def)

lemma mainLoop_unknown:
  assumes "waitForGroup e K s = (Return q, s')"
    and "reqType q \<noteq> TABLEREQ K" and "reqType q \<noteq> BILLREQ K" and "nReq < int32 (nGroups s * 2)"
  shows "mainLoop e K nReq s = mainLoop e K (nReq + 1) s'"
  using assms
  by (subst mainLoop.simps) (simp add: seq_Return dispatch_unknown)

lemma receivePayment_vacancy:
  assumes wf: "wellFormed K s" and n: "inRange n (MAXGROUPS K)"
    and run: "receivePayment e K n s = (r, s')"
  shows "(\<forall>x. SemUp (tableDone x) \<in> set (drop (length (trace s)) (trace s'))
        \<longrightarrow> x = assignedTable s ! nat n)
    \<and> (r = Return () \<longrightarrow> last (trace s') = SemUp (tableDone (assignedTable s ! nat n)))
    \<and> (inRange (assignedTable s ! nat n) (NUMTABLES K) \<longrightarrow> (\<forall>a i. r \<noteq> OutOfRange a i))
    \<and> (\<not> inRange (assignedTable s ! nat n) (NUMTABLES K) \<and> (\<forall>k. semRet e k \<noteq> -1)
        \<longrightarrow> r = OutOfRange A_tableDone (assignedTable s ! nat n))"
proof (cases "groupsWaiting s = 0 \<or> WAIT \<notin> set (groupRecord s)")
  case True
  then have "groupsWaiting s = 0 \<or> (MAXGROUPS K \<le> length (groupRecord s) \<and> WAIT \<notin> set (groupRecord s))"
    using wf by (auto simp: wellFormed_def)
  then show ?thesis
    using run wf n
    by (auto simp: receivePayment_def run_simps decideNextGroup_none wellFormed_def
        split: if_splits)
next
  case False
  then obtain g where g: "g < length (groupRecord s)" "groupRecord s ! g = WAIT"
    "\<forall>h<g. groupRecord s ! h \<noteq> WAIT"
    using first_waiting by blast
  have gw: "groupsWaiting s \<noteq> 0" using False by simp
  have gK: "g < MAXGROUPS K" and len: "MAXGROUPS K \<le> length (groupRecord s)"
    using g wf by (simp_all add: wellFormed_def)
  show ?thesis
    using run wf gw g gK n
    by (auto simp: receivePayment_def run_simps decideNextGroup_found [where g = g]
        wellFormed_def inRange_def split: if_splits)
qed

lemma unseated_payment:
  "fst (receivePayment calm sampleConst 0 atOpening) = OutOfRange A_tableDone (-1)"
  by (simp add: receivePayment_def run_simps decideNextGroup_def inRange_def calm_def
      sampleConst_def atOpening_def)

subsection \<open>Stopping at the first failed semaphore call\<close>

lemma failStopI:
  assumes "\<And>r s'. m s = (r, s') \<Longrightarrow>
    (\<exists>evs. trace s' = trace s @ evs)
    \<and> (\<forall>k. length (trace s) \<le> k \<and> failedAt e (trace s') k
          \<longrightarrow> r = Exit EXIT_FAILURE \<and> Suc k = length (trace s'))
    \<and> (\<forall>c. r = Exit c
          \<longrightarrow> length (trace s) < length (trace s')
            \<and> failedAt e (trace s') (length (trace s') - 1))"
  shows "failStop e m s"
  using assms by (auto simp: failStop_def split: prod.splits)

lemma failStopD:
  assumes "failStop e m s" and "m s = (r, s')"
  shows "\<exists>evs. trace s' = trace s @ evs"
    and "length (trace s) \<le> k \<Longrightarrow> failedAt e (trace s') k \<Longrightarrow>
      r = Exit EXIT_FAILURE \<and> Suc k = length (trace s')"
    and "r = Exit c \<Longrightarrow>
      length (trace s) < length (trace s') \<and> failedAt e (trace s') (length (trace s') - 1)"
  using assms by (auto simp: failStop_def)

lemma failedAt_append:
  "k < length tr \<Longrightarrow> failedAt e (tr @ evs) k = failedAt e tr k"
  by (simp add: failedAt_def nth_append)

lemma failStop_seq:
  assumes m: "failStop e m s"
    and f: "\<And>v t. m s = (Return v, t) \<Longrightarrow> failStop e (f v) t"
  shows "failStop e (seq m f) s"
proof (rule failStopI)
  fix r s'
  assume run: "seq m f s = (r, s')"
  obtain r0 t where mt: "m s = (r0, t)" by (cases "m s")
  show "(\<exists>evs. trace s' = trace s @ evs)
    \<and> (\<forall>k. length (trace s) \<le> k \<and> failedAt e (trace s') k
          \<longrightarrow> r = Exit EXIT_FAILURE \<and> Suc k = length (trace s'))
    \<and> (\<forall>c. r = Exit c
          \<longrightarrow> length (trace s) < length (trace s')
            \<and> failedAt e (trace s') (length (trace s') - 1))"
  proof (cases r0)
    case (Return v)
    with mt run have ft: "f v t = (r, s')" by (simp add: seq_def)
    note M = failStopD [OF m mt] and F = failStopD [OF f [OF mt [unfolded Return]] ft]
    from M(1) obtain evs1 where e1: "trace t = trace s @ evs1" ..
    from F(1) obtain evs2 where e2: "trace s' = trace t @ evs2" ..
    have early: "\<not> failedAt e (trace s') k" if "length (trace s) \<le> k" "k < length (trace t)" for k
    proof
      assume "failedAt e (trace s') k"
      then have "failedAt e (trace t) k"
        using that(2) e2 by (simp add: failedAt_append)
      from M(2) [OF that(1) this] Return show False by simp
    qed
    have "\<exists>evs. trace s' = trace s @ evs" using e1 e2 by simp
    moreover have "r = Exit EXIT_FAILURE \<and> Suc k = length (trace s')"
      if "length (trace s) \<le> k" "failedAt e (trace s') k" for k
    proof -
      have "length (trace t) \<le> k" using early [OF that(1)] that(2) by (meson not_le)
      from F(2) [OF this that(2)] show ?thesis .
    qed
    moreover have "length (trace s) < length (trace s')
        \<and> failedAt e (trace s') (length (trace s') - 1)" if "r = Exit c" for c
      using F(3) [OF that] e1 by simp
    ultimately show ?thesis by blast
  next
    case (Exit c)
    with mt run have "r = Exit c" "s' = t" by (simp_all add: seq_def)
    then show ?thesis using failStopD [OF m mt] Exit by blast
  next
    case (OutOfRange a i)
    with mt run have "r = OutOfRange a i" "s' = t" by (simp_all add: seq_def)
    then show ?thesis using failStopD [OF m mt] OutOfRange by blast
  qed
qed

lemma failStop_if:
  "(b \<Longrightarrow> failStop e m s) \<Longrightarrow> (\<not> b \<Longrightarrow> failStop e m' s) \<Longrightarrow>
   failStop e (if b then m else m') s"
  by simp

lemma failStop_silent:
  assumes "\<And>r s'. m s = (r, s') \<Longrightarrow> trace s' = trace s \<and> (\<forall>c. r \<noteq> Exit c)"
  shows "failStop e m s"
  using assms by (intro failStopI) (auto simp: failedAt_def)

lemma failStop_sem: "failStop e (semDown e x) s" "failStop e (semUp e x) s"
  by (auto simp: failStop_def semDown_def semUp_def failedAt_def nth_append less_Suc_eq)

lemma failStop_prim:
  "failStop e (ret v) s" "failStop e (setStatus w) s" "failStop e saveState s"
  "failStop e (deliver e') s" "failStop e copyRequest s"
  "failStop e (readAssigned n) s" "failStop e (writeAssigned n w) s"
  "failStop e (writeRecord n w) s" "failStop e (waitForTableSem K n) s"
  "failStop e (tableDoneSem K n) s"
  by (auto simp: failStop_def ret_def setStatus_def saveState_def deliver_def copyRequest_def
      readAssigned_def writeAssigned_def writeRecord_def waitForTableSem_def tableDoneSem_def
      failedAt_def nth_append)

lemma nextGroupLoop_silent:
  "nextGroupLoop K g s = (r, s') \<Longrightarrow>
   trace s' = trace s \<and> nGroups s' = nGroups s \<and> (\<forall>c. r \<noteq> Exit c)"
proof (induction K g s rule: nextGroupLoop.induct)
  case (1 K g s)
  from "1.prems" show ?case
    by (subst (asm) nextGroupLoop.simps) (auto split: if_splits dest: "1.IH")
qed

lemma decideNextGroup_silent:
  "decideNextGroup K s = (r, s') \<Longrightarrow>
   trace s' = trace s \<and> nGroups s' = nGroups s \<and> (\<forall>c. r \<noteq> Exit c)"
  by (auto simp: decideNextGroup_def split: if_splits dest: nextGroupLoop_silent)

lemma decideTableOrWait_silent:
  "decideTableOrWait K n s = (r, s') \<Longrightarrow>
   trace s' = trace s \<and> nGroups s' = nGroups s \<and> (\<forall>c. r \<noteq> Exit c)"
  by (auto simp: decideTableOrWait_def seq_def writeRecord_def ret_def
      split: option.splits if_splits)

lemma failStop_decide:
  "failStop e (decideNextGroup K) s" "failStop e (decideTableOrWait K n) s"
  using decideNextGroup_silent decideTableOrWait_silent
  by (blast intro: failStop_silent)+

lemmas failStop_intros =
  failStop_seq failStop_if failStop_sem failStop_prim failStop_decide

lemma failStop_waitForGroup: "failStop e (waitForGroup e K) s"
  unfolding waitForGroup_def by (intro failStop_intros)

lemma failStop_provide: "failStop e (provideTableOrWaitingRoom e K n) s"
  unfolding provideTableOrWaitingRoom_def by (intro failStop_intros)

lemma failStop_pay: "failStop e (receivePayment e K n) s"
  unfolding receivePayment_def by (intro failStop_intros)

lemma failStop_dispatch: "failStop e (dispatch e K q) s"
  by (simp add: dispatch_def failStop_provide failStop_pay failStop_prim)

lemma mainLoop_seq:
  "mainLoop e K nReq s =
     (if nReq < int32 (nGroups s * 2)
      then seq (seq (waitForGroup e K) (dispatch e K)) (\<lambda>_. mainLoop e K (nReq + 1)) s
      else (Return nReq, s))"
  by (subst mainLoop.simps) (simp add: seq_def split: prod.splits outcome.splits)

lemma failStop_mainLoop: "failStop e (mainLoop e K nReq) s"
proof (induction e K nReq s rule: mainLoop.induct)
  case (1 e K nReq s)
  show ?case
  proof (cases "nReq < int32 (nGroups s * 2)")
    case True
    have body: "failStop e (seq (waitForGroup e K) (dispatch e K)) s"
      by (intro failStop_seq failStop_waitForGroup failStop_dispatch)
    have "failStop e (seq (seq (waitForGroup e K) (dispatch e K))
        (\<lambda>_. mainLoop e K (nReq + 1))) s"
      using body
    proof (rule failStop_seq)
      fix v t
      assume "seq (waitForGroup e K) (dispatch e K) s = (Return v, t)"
      then have "(Return v, t) = seq (waitForGroup e K) (dispatch e K) s" by simp
      from "1.IH" [OF True this refl]
      show "failStop e (mainLoop e K (nReq + 1)) t" .
    qed
    then show ?thesis
      using True by (simp add: failStop_def mainLoop_seq [of e K nReq s])
  next
    case False
    then show ?thesis
      by (simp add: failStop_def mainLoop_seq [of e K nReq s] failedAt_def)
  qed
qed


subsection \<open>Counting the requests served\<close>

lemma quietD:
  "quiet m s \<Longrightarrow> m s = (r, s') \<Longrightarrow>
   nGroups s' = nGroups s \<and> filter isCopy (trace s') = filter isCopy (trace s)"
  by (simp add: quiet_def)

lemma quiet_seq:
  assumes "quiet m s" and "\<And>v t. m s = (Return v, t) \<Longrightarrow> quiet (f v) t"
  shows "quiet (seq m f) s"
proof -
  obtain r0 t where mt: "m s = (r0, t)" by (cases "m s")
  note M = quietD [OF assms(1) mt]
  show ?thesis
  proof (cases r0)
    case (Return v)
    from assms(2) [OF mt [unfolded Return]] M mt Return show ?thesis
      by (auto simp: quiet_def seq_def split: prod.splits)
  next
    case (Exit c)
    with M mt show ?thesis by (simp add: quiet_def seq_def)
  next
    case (OutOfRange a i)
    with M mt show ?thesis by (simp add: quiet_def seq_def)
  qed
qed

lemma quiet_if:
  "(b \<Longrightarrow> quiet m s) \<Longrightarrow> (\<not> b \<Longrightarrow> quiet m' s) \<Longrightarrow> quiet (if b then m else m') s"
  by simp

lemma quiet_prim:
  "quiet (semDown e x) s" "quiet (semUp e x) s"
  "quiet (ret v) s" "quiet (setStatus w) s" "quiet saveState s" "quiet (deliver e) s"
  "quiet (readAssigned n) s" "quiet (writeAssigned n w) s"
  "quiet (writeRecord n w) s" "quiet (waitForTableSem K n) s"
  "quiet (tableDoneSem K n) s"
  by (auto simp: quiet_def semDown_def semUp_def ret_def setStatus_def saveState_def
      deliver_def readAssigned_def writeAssigned_def writeRecord_def waitForTableSem_def
      tableDoneSem_def)

lemma quiet_decide:
  "quiet (decideNextGroup K) s" "quiet (decideTableOrWait K n) s"
proof -
  obtain r s' where "decideNextGroup K s = (r, s')" by (cases "decideNextGroup K s")
  from decideNextGroup_silent [OF this] this show "quiet (decideNextGroup K) s"
    by (simp add: quiet_def)
  obtain r s' where "decideTableOrWait K n s = (r, s')" by (cases "decideTableOrWait K n s")
  from decideTableOrWait_silent [OF this] this show "quiet (decideTableOrWait K n) s"
    by (simp add: quiet_def)
qed

lemmas quiet_intros = quiet_seq quiet_if quiet_prim quiet_decide

lemma quiet_dispatch: "quiet (dispatch e K q) s"
  unfolding dispatch_def provideTableOrWaitingRoom_def receivePayment_def
  by (intro quiet_intros)

lemma mainLoop_count:
  "mainLoop e K nReq s = (Return m, s') \<Longrightarrow>
   length (filter isCopy (trace s')) =
     length (filter isCopy (trace s)) + nat (int32 (nGroups s * 2) - nReq)"
proof (induction e K nReq s rule: mainLoop.induct)
  case (1 e K nReq s)
  show ?case
  proof (cases "nReq < int32 (nGroups s * 2)")
    case False
    with "1.prems" show ?thesis by (simp add: mainLoop_seq [of e K nReq s])
  next
    case True
    with "1.prems"
    have "seq (seq (waitForGroup e K) (dispatch e K)) (\<lambda>_. mainLoop e K (nReq + 1)) s =
      (Return m, s')"
      by (simp add: mainLoop_seq [of e K nReq s])
    then obtain v y where body: "seq (waitForGroup e K) (dispatch e K) s = (Return v, y)"
      and rest: "mainLoop e K (nReq + 1) y = (Return m, s')"
      by (blast dest: seq_ReturnD)
    from body obtain q t where w: "waitForGroup e K s = (Return q, t)"
      and d: "dispatch e K q t = (Return v, y)"
      by (blast dest: seq_ReturnD)
    note W = waitForGroup_Return_trace [OF w] and D = quietD [OF quiet_dispatch d]
    have groups: "nGroups y = nGroups s" using W D by simp
    have "length (filter isCopy (trace y)) = length (filter isCopy (trace s)) + 1"
      using W D by (simp add: waitForGroupOrder_def)
    moreover from body have "(Return v, y) = seq (waitForGroup e K) (dispatch e K) s"
      by simp
    from "1.IH" [OF True this refl rest]
    have "length (filter isCopy (trace s')) =
      length (filter isCopy (trace y)) + nat (int32 (nGroups y * 2) - (nReq + 1))" .
    ultimately show ?thesis using groups True by simp
  qed
qed

lemma lifeCycle_exit:
  assumes "lifeCycle e K s = (r, s')"
  shows "(\<forall>k. length (trace s) \<le> k \<and> failedAt e (trace s') k
        \<longrightarrow> r = Exit EXIT_FAILURE \<and> Suc k = length (trace s'))
    \<and> ((\<forall>k. length (trace s) \<le> k \<longrightarrow> \<not> failedAt e (trace s') k)
         \<and> (\<forall>a i. r \<noteq> OutOfRange a i)
        \<longrightarrow> length (filter isCopy (trace s')) =
              length (filter isCopy (trace s)) + nat (int32 (nGroups s * 2))
          \<and> r = Exit (if shmemDettach e = -1 then EXIT_FAILURE else EXIT_SUCCESS))
    \<and> EXIT_FAILURE \<noteq> 0 \<and> EXIT_SUCCESS = 0"
proof -
  obtain r0 s0 where loop: "mainLoop e K 0 s = (r0, s0)" by (cases "mainLoop e K 0 s")
  note L = failStopD [OF failStop_mainLoop loop]
  show ?thesis
  proof (cases r0)
    case (Return m)
    with loop assms have r: "r = Exit (if shmemDettach e = -1 then EXIT_FAILURE else EXIT_SUCCESS)"
      and s': "s' = s0"
      by (auto simp: lifeCycle_def split: if_splits)
    have "\<not> failedAt e (trace s') k" if "length (trace s) \<le> k" for k
      using L(2) [OF that] Return s' by auto
    moreover have "length (filter isCopy (trace s')) =
        length (filter isCopy (trace s)) + nat (int32 (nGroups s * 2))"
      using mainLoop_count [OF loop [unfolded Return]] s' by simp
    ultimately show ?thesis
      using r by (auto simp: EXIT_FAILURE_def EXIT_SUCCESS_def)
  next
    case (Exit c)
    with loop assms have r: "r = Exit c" and s': "s' = s0"
      by (auto simp: lifeCycle_def)
    from L(3) [OF Exit] have "length (trace s) \<le> length (trace s') - 1"
      and "failedAt e (trace s') (length (trace s') - 1)"
      using s' by auto
    then show ?thesis
      using L(2) Exit r s' by (auto simp: EXIT_FAILURE_def EXIT_SUCCESS_def)
  next
    case (OutOfRange a i)
    with loop assms have r: "r = OutOfRange a i" and s': "s' = s0"
      by (auto simp: lifeCycle_def)
    then show ?thesis
      using L(2) OutOfRange by (auto simp: EXIT_FAILURE_def EXIT_SUCCESS_def)
  qed
qed

lemmas sample_defs = oneVisit_def detachFails_def jammed_def calm_def sampleConst_def
  oneGroup_def atOpening_def

lemmas life_simps = lifeCycle_def mainLoop_seq int32_def run_simps dispatch_def waitForGroup_def
  provideTableOrWaitingRoom_def receivePayment_def scanTables.simps decideNextGroup_def
  inRange_def

lemma visit_succeeds: "fst (lifeCycle oneVisit sampleConst oneGroup) = Exit EXIT_SUCCESS"
  by (simp add: life_simps sample_defs)

lemma jammed_trace:
  "trace (snd (lifeCycle jammed sampleConst oneGroup)) =
     [SemDown mutex, SetStatus 0, SaveState 0, SemUp mutex]"
  by (simp add: life_simps sample_defs)

text \<open>
  Beyond the bound the 32-bit product is not \<open>2 \<times> nGroups\<close>: with
  \<open>nGroups = -2\<^sup>3\<^sup>0 - 1\<close> it is positive and the loop is entered, as the failed release
  of the lock shows.
\<close>

lemma product_wraps: "int32 (- 1073741825 * 2) = 2147483646"
  by (simp add: int32_def)

lemma wrapped_product_enters_loop:
  "lifeCycle jammed sampleConst (oneGroup\<lparr>nGroups := - 1073741825\<rparr>) =
     (Exit EXIT_FAILURE,
      oneGroup\<lparr>nGroups := - 1073741825,
        trace := [SemDown mutex, SetStatus 0, SaveState 0, SemUp mutex]\<rparr>)"
  by (simp add: life_simps sample_defs)

subsection \<open>The sample states are states of the program\<close>

lemma reachable_provide:
  "reachable K s0 s \<Longrightarrow> fst (provideTableOrWaitingRoom e K n s) = Return () \<Longrightarrow>
   reachable K s0 (snd (provideTableOrWaitingRoom e K n s))"
  by (rule reachable.provide) (simp_all add: prod_eq_iff)

lemma reachable_pay:
  "reachable K s0 s \<Longrightarrow> fst (receivePayment e K n s) = Return () \<Longrightarrow>
   reachable K s0 (snd (receivePayment e K n s))"
  by (rule reachable.pay) (simp_all add: prod_eq_iff)

lemmas step_simps = provideTableOrWaitingRoom_def receivePayment_def run_simps
  scanTables.simps nextGroupLoop.simps decideNextGroup_def inRange_def calm_def
  sampleConst_def atOpening_def phases_distinct phases_distinct [symmetric]

lemma full_reachable:
  "\<exists>s. reachable sampleConst atOpening s \<and> assignedTable s = assignedTable full
     \<and> groupRecord s = groupRecord full \<and> groupsWaiting s = groupsWaiting full"
proof -
  let ?s1 = "snd (provideTableOrWaitingRoom calm sampleConst 0 atOpening)"
  let ?s2 = "snd (provideTableOrWaitingRoom calm sampleConst 1 ?s1)"
  let ?s3 = "snd (provideTableOrWaitingRoom calm sampleConst 2 ?s2)"
  have "reachable sampleConst atOpening ?s1"
    by (rule reachable_provide [OF reachable.start]) (simp add: step_simps)
  then have "reachable sampleConst atOpening ?s2"
    by (rule reachable_provide) (simp add: step_simps)
  then have "reachable sampleConst atOpening ?s3"
    by (rule reachable_provide) (simp add: step_simps)
  moreover have "assignedTable ?s3 = assignedTable full \<and> groupRecord ?s3 = groupRecord full
    \<and> groupsWaiting ?s3 = groupsWaiting full"
    by (simp add: step_simps full_def)
  ultimately show ?thesis by blast
qed

lemma stale_reachable:
  "\<exists>s. reachable sampleConst atOpening s \<and> assignedTable s = assignedTable stale
     \<and> groupRecord s = groupRecord stale \<and> groupsWaiting s = groupsWaiting stale"
proof -
  let ?s1 = "snd (provideTableOrWaitingRoom calm sampleConst 0 atOpening)"
  let ?s2 = "snd (provideTableOrWaitingRoom calm sampleConst 1 ?s1)"
  let ?s3 = "snd (provideTableOrWaitingRoom calm sampleConst 2 ?s2)"
  let ?s4 = "snd (provideTableOrWaitingRoom calm sampleConst 2 ?s3)"
  let ?s5 = "snd (receivePayment calm sampleConst 0 ?s4)"
  have "reachable sampleConst atOpening ?s1"
    by (rule reachable_provide [OF reachable.start]) (simp add: step_simps)
  then have "reachable sampleConst atOpening ?s2"
    by (rule reachable_provide) (simp add: step_simps)
  then have "reachable sampleConst atOpening ?s3"
    by (rule reachable_provide) (simp add: step_simps)
  then have "reachable sampleConst atOpening ?s4"
    by (rule reachable_provide) (simp add: step_simps)
  then have "reachable sampleConst atOpening ?s5"
    by (rule reachable_pay) (simp add: step_simps)
  moreover have "assignedTable ?s5 = assignedTable stale \<and> groupRecord ?s5 = groupRecord stale
    \<and> groupsWaiting ?s5 = groupsWaiting stale"
    by (simp add: step_simps stale_def)
  ultimately show ?thesis by blast
qed

section \<open>Properties of the receptionist\<close>

text \<open>
  C1. The paying group is marked \<open>DONE\<close> in the ledger only when a waiting group takes
  over its table: \<^verbatim>\<open>groupRecord[n] = DONE\<close> stands inside \<^verbatim>\<open>if (groupId != -1)\<close>.
  When group 0, seated at table 0, pays while nobody waits, \<^verbatim>\<open>receivePayment\<close> completes
  and the ledger entry of group 0 is still \<open>ATTABLE\<close>.
\<close>

theorem receivePayment_leaves_payer_at_table:
  "fst (receivePayment calm sampleConst 0 seated) = Return ()
   \<and> groupRecord (snd (receivePayment calm sampleConst 0 seated)) ! 0 = ATTABLE
   \<and> groupRecord (snd (receivePayment calm sampleConst 0 seated)) ! 0 \<noteq> DONE"
  by (simp add: receivePayment_def seq_def ret_def semDown_def semUp_def setStatus_def
      saveState_def readAssigned_def writeAssigned_def tableDoneSem_def decideNextGroup_def
      inRange_def calm_def sampleConst_def seated_def atOpening_def phases_distinct)

text \<open>
  C2. A request whose kind is neither \<^verbatim>\<open>TABLEREQ\<close> nor \<^verbatim>\<open>BILLREQ\<close> is not fatal: the
  \<^verbatim>\<open>switch\<close> has no default, so no handler runs, the dispatch leaves the state as
  \<^verbatim>\<open>waitForGroup\<close> left it, and the loop, whose guard \<^verbatim>\<open>nReq < sh->fSt.nGroups*2\<close> held,
  goes on with the request counted in \<^verbatim>\<open>nReq\<close>.
\<close>

theorem unknown_request_kind_skipped:
  assumes "waitForGroup e K s = (Return q, s')"
    and "reqType q \<noteq> TABLEREQ K" and "reqType q \<noteq> BILLREQ K"
    and "nReq < int32 (nGroups s * 2)"
  shows "dispatch e K q s' = (Return (), s')
    \<and> mainLoop e K nReq s = mainLoop e K (nReq + 1) s'"
  using assms by (simp add: dispatch_unknown mainLoop_unknown)

theorem unknown_request_kind_skipped_witness:
  "waitForGroup odd sampleConst oneGroup =
     (Return \<lparr>reqType = 7, reqGroup = 0\<rparr>, snd (waitForGroup odd sampleConst oneGroup))
   \<and> 7 \<noteq> TABLEREQ sampleConst \<and> 7 \<noteq> BILLREQ sampleConst
   \<and> 0 < int32 (nGroups oneGroup * 2)
   \<and> dispatch odd sampleConst \<lparr>reqType = 7, reqGroup = 0\<rparr>
        (snd (waitForGroup odd sampleConst oneGroup)) =
       (Return (), snd (waitForGroup odd sampleConst oneGroup))
   \<and> mainLoop odd sampleConst 0 oneGroup =
       mainLoop odd sampleConst 1 (snd (waitForGroup odd sampleConst oneGroup))"
proof -
  have calm: "\<forall>k. semRet odd k \<noteq> -1"
    by (simp add: odd_def calm_def)
  have w: "waitForGroup odd sampleConst oneGroup =
     (Return \<lparr>reqType = 7, reqGroup = 0\<rparr>, snd (waitForGroup odd sampleConst oneGroup))"
    by (simp add: waitForGroup_calm [OF calm]) (simp add: odd_def calm_def)
  have kinds: "reqType \<lparr>reqType = 7, reqGroup = 0\<rparr> \<noteq> TABLEREQ sampleConst"
    "reqType \<lparr>reqType = 7, reqGroup = 0\<rparr> \<noteq> BILLREQ sampleConst"
    by (simp_all add: sampleConst_def)
  have budget: "0 < int32 (nGroups oneGroup * 2)"
    by (simp add: oneGroup_def atOpening_def int32_def)
  from unknown_request_kind_skipped [OF w kinds budget] w kinds budget
  show ?thesis by simp
qed

text \<open>
  With one group expected and two requests of the unknown kind 7 delivered, the life
  cycle takes both requests out of the slot and ends with \<^verbatim>\<open>EXIT_SUCCESS\<close>: the unknown
  kind is skipped and counted, not treated as fatal.
\<close>

theorem unknown_request_kind_not_fatal:
  "fst (lifeCycle odd sampleConst oneGroup) = Exit EXIT_SUCCESS
   \<and> length (filter isCopy (trace (snd (lifeCycle odd sampleConst oneGroup)))) = 2"
proof -
  have calm: "\<forall>k. semRet odd k \<noteq> -1"
    by (simp add: odd_def calm_def)
  have kinds: "\<And>k. reqType (incoming odd k) \<noteq> TABLEREQ sampleConst"
    "\<And>k. reqType (incoming odd k) \<noteq> BILLREQ sampleConst"
    by (simp_all add: odd_def sampleConst_def)
  obtain q1 s1 where w1: "waitForGroup odd sampleConst oneGroup = (Return q1, s1)"
    using waitForGroup_calm [OF calm] by blast
  obtain q2 s2 where w2: "waitForGroup odd sampleConst s1 = (Return q2, s2)"
    using waitForGroup_calm [OF calm] by blast
  note t1 = waitForGroup_Return_trace [OF w1] and t2 = waitForGroup_Return_trace [OF w2]
  have groups: "nGroups oneGroup = 1" "nGroups s1 = 1" "nGroups s2 = 1"
    using t1 t2 by (simp_all add: oneGroup_def atOpening_def)
  have "mainLoop odd sampleConst 0 oneGroup = mainLoop odd sampleConst (0 + 1) s1"
    using t1 kinds groups by (intro mainLoop_unknown [OF w1]) (simp_all add: int32_def)
  also have "\<dots> = mainLoop odd sampleConst (1 + 1) s2"
    using t2 kinds groups mainLoop_unknown [OF w2, of 1] by (simp add: int32_def)
  also have "\<dots> = (Return 2, s2)"
    using groups by (subst mainLoop.simps) (simp add: int32_def)
  finally have loop: "mainLoop odd sampleConst 0 oneGroup = (Return 2, s2)" .
  have "length (filter isCopy (trace s2)) = 2"
    using t1 t2 by (simp add: waitForGroupOrder_def oneGroup_def atOpening_def)
  then show ?thesis
    using loop by (simp add: lifeCycle_def odd_def calm_def)
qed

text \<open>
  C3. The contract of \<^verbatim>\<open>decideNextGroup\<close>, as the code has it. If \<^verbatim>\<open>groupsWaiting\<close> is
  zero, or if no entry of the ledger is in the waiting phase, it returns \<open>-1\<close> and changes
  nothing. Otherwise, with \<open>g\<close> the smallest group id whose ledger entry is in the waiting
  phase, it sets that entry to \<open>ATTABLE\<close>, decrements \<^verbatim>\<open>groupsWaiting\<close> by one and returns
  \<open>g\<close>; nothing else changes.
\<close>

theorem decideNextGroup_contract:
  assumes "length (groupRecord s) = MAXGROUPS K"
  shows "(groupsWaiting s = 0 \<or> WAIT \<notin> set (groupRecord s)
      \<longrightarrow> decideNextGroup K s = (Return (-1), s))
    \<and> (groupsWaiting s \<noteq> 0 \<and> g < MAXGROUPS K \<and> groupRecord s ! g = WAIT
         \<and> (\<forall>h<g. groupRecord s ! h \<noteq> WAIT)
      \<longrightarrow> decideNextGroup K s =
            (Return (int g),
             s\<lparr>groupRecord := (groupRecord s)[g := ATTABLE],
               groupsWaiting := groupsWaiting s - 1\<rparr>))"
proof (intro conjI impI)
  assume none: "groupsWaiting s = 0 \<or> WAIT \<notin> set (groupRecord s)"
  show "decideNextGroup K s = (Return (-1), s)"
  proof (cases "groupsWaiting s = 0")
    case True
    then show ?thesis by (simp add: decideNextGroup_def)
  next
    case False
    with none have "\<forall>h. 0 \<le> h \<and> h < MAXGROUPS K \<longrightarrow> groupRecord s ! h \<noteq> WAIT"
      using assms by (metis nth_mem)
    then have "nextGroupLoop K 0 s = (Return (-1), s)"
      using assms by (intro nextGroupLoop_none) simp_all
    with False show ?thesis by (simp add: decideNextGroup_def)
  qed
next
  assume found: "groupsWaiting s \<noteq> 0 \<and> g < MAXGROUPS K \<and> groupRecord s ! g = WAIT
    \<and> (\<forall>h<g. groupRecord s ! h \<noteq> WAIT)"
  then have "nextGroupLoop K 0 s =
    (Return (int g),
     s\<lparr>groupRecord := (groupRecord s)[g := ATTABLE], groupsWaiting := groupsWaiting s - 1\<rparr>)"
    using assms by (intro nextGroupLoop_found) simp_all
  with found show "decideNextGroup K s =
    (Return (int g),
     s\<lparr>groupRecord := (groupRecord s)[g := ATTABLE], groupsWaiting := groupsWaiting s - 1\<rparr>)"
    by (simp add: decideNextGroup_def)
qed

theorem decideNextGroup_contract_witness:
  "decideNextGroup sampleConst stale = (Return (-1), stale)
   \<and> decideNextGroup sampleConst queued =
       (Return 1, queued\<lparr>groupRecord := [ATTABLE, ATTABLE, WAIT], groupsWaiting := 1\<rparr>)"
proof -
  have "length (groupRecord stale) = MAXGROUPS sampleConst"
    and "WAIT \<notin> set (groupRecord stale)"
    by (simp_all add: stale_def atOpening_def sampleConst_def phases_distinct
        phases_distinct [symmetric])
  then have none: "decideNextGroup sampleConst stale = (Return (-1), stale)"
    using decideNextGroup_contract [of stale sampleConst 0] by simp
  have "length (groupRecord queued) = MAXGROUPS sampleConst"
    and "groupsWaiting queued \<noteq> 0 \<and> 1 < MAXGROUPS sampleConst
      \<and> groupRecord queued ! 1 = WAIT \<and> (\<forall>h<1. groupRecord queued ! h \<noteq> WAIT)"
    by (simp_all add: queued_def atOpening_def sampleConst_def phases_distinct
        phases_distinct [symmetric])
  then have "decideNextGroup sampleConst queued =
    (Return (int 1),
     queued\<lparr>groupRecord := (groupRecord queued)[1 := ATTABLE],
       groupsWaiting := groupsWaiting queued - 1\<rparr>)"
    using decideNextGroup_contract [of queued sampleConst 1] by blast
  then have "decideNextGroup sampleConst queued =
    (Return 1, queued\<lparr>groupRecord := [ATTABLE, ATTABLE, WAIT], groupsWaiting := 1\<rparr>)"
    by (simp add: queued_def atOpening_def)
  with none show ?thesis by simp
qed

text \<open>
  The contract as the specification words it fails in the state \<open>stale\<close>: there
  \<^verbatim>\<open>groupsWaiting\<close> is not zero, and yet no group is selected, \<open>-1\<close> is returned and the
  counter is not decremented. The receptionist reaches this allocation state from opening
  time: groups 0 and 1 are seated, group 2 asks for a table twice, and group 0 pays.
\<close>

theorem decideNextGroup_nonzero_counter_no_candidate:
  "groupsWaiting stale \<noteq> 0
   \<and> fst (decideNextGroup sampleConst stale) = Return (-1)
   \<and> groupsWaiting (snd (decideNextGroup sampleConst stale)) = groupsWaiting stale
   \<and> (\<exists>s. reachable sampleConst atOpening s \<and> assignedTable s = assignedTable stale
         \<and> groupRecord s = groupRecord stale \<and> groupsWaiting s = groupsWaiting stale)"
proof -
  have "nextGroupLoop sampleConst 0 stale = (Return (-1), stale)"
    by (simp add: nextGroupLoop.simps stale_def atOpening_def sampleConst_def
        phases_distinct phases_distinct [symmetric])
  then have "groupsWaiting stale \<noteq> 0
    \<and> fst (decideNextGroup sampleConst stale) = Return (-1)
    \<and> groupsWaiting (snd (decideNextGroup sampleConst stale)) = groupsWaiting stale"
    by (simp add: decideNextGroup_def stale_def atOpening_def)
  with stale_reachable show ?thesis by simp
qed

text \<open>
  C4. In a well-formed state in which \<^verbatim>\<open>groupsWaiting\<close> equals the number of ledger
  entries in the waiting phase, and for a group \<open>n\<close> whose own ledger entry is not in the
  waiting phase, each operation of the receptionist that completes leaves the equality
  in force: \<^verbatim>\<open>provideTableOrWaitingRoom\<close>, \<^verbatim>\<open>receivePayment\<close> and \<^verbatim>\<open>waitForGroup\<close>.
\<close>

theorem waitingConsistent_preserved:
  assumes "wellFormed K s" and "waitingConsistent s" and "groupRecord s ! nat n \<noteq> WAIT"
  shows "(provideTableOrWaitingRoom e K n s = (Return (), s1) \<longrightarrow> waitingConsistent s1)
    \<and> (receivePayment e K n s = (Return (), s2) \<longrightarrow> waitingConsistent s2)
    \<and> (waitForGroup e K s = (Return q, s3) \<longrightarrow> waitingConsistent s3)"
proof (intro conjI impI)
  assume "provideTableOrWaitingRoom e K n s = (Return (), s1)"
  with assms(2,3) show "waitingConsistent s1" by (rule provide_waitingConsistent)
next
  assume "receivePayment e K n s = (Return (), s2)"
  with assms show "waitingConsistent s2" by (rule pay_waitingConsistent)
next
  assume "waitForGroup e K s = (Return q, s3)"
  from waitForGroup_Return [OF this] assms(2) show "waitingConsistent s3"
    by (simp add: waitingConsistent_def)
qed

theorem waitingConsistent_preserved_witness:
  "wellFormed sampleConst seated \<and> waitingConsistent seated
   \<and> groupRecord seated ! nat 0 \<noteq> WAIT
   \<and> fst (provideTableOrWaitingRoom calm sampleConst 0 seated) = Return ()
   \<and> waitingConsistent (snd (provideTableOrWaitingRoom calm sampleConst 0 seated))
   \<and> fst (receivePayment calm sampleConst 0 seated) = Return ()
   \<and> waitingConsistent (snd (receivePayment calm sampleConst 0 seated))
   \<and> fst (waitForGroup calm sampleConst seated) = Return \<lparr>reqType = 1, reqGroup = 0\<rparr>
   \<and> waitingConsistent (snd (waitForGroup calm sampleConst seated))"
proof -
  have pre: "wellFormed sampleConst seated" "waitingConsistent seated"
    "groupRecord seated ! nat 0 \<noteq> WAIT"
    by (simp_all add: wellFormed_def waitingConsistent_def seated_def atOpening_def
        sampleConst_def phases_distinct phases_distinct [symmetric])
  have p: "fst (provideTableOrWaitingRoom calm sampleConst 0 seated) = Return ()"
    by (simp add: provideTableOrWaitingRoom_def run_simps scanTables.simps inRange_def
        calm_def sampleConst_def seated_def atOpening_def)
  have r: "fst (receivePayment calm sampleConst 0 seated) = Return ()"
    by (simp add: receivePayment_def run_simps decideNextGroup_def inRange_def
        calm_def sampleConst_def seated_def atOpening_def)
  have w: "fst (waitForGroup calm sampleConst seated) = Return \<lparr>reqType = 1, reqGroup = 0\<rparr>"
    by (simp add: waitForGroup_calm calm_def)
  from waitingConsistent_preserved [OF pre,
      where e = calm
        and ?s1.0 = "snd (provideTableOrWaitingRoom calm sampleConst 0 seated)"
        and ?s2.0 = "snd (receivePayment calm sampleConst 0 seated)"
        and q = "\<lparr>reqType = 1, reqGroup = 0\<rparr>"
        and ?s3.0 = "snd (waitForGroup calm sampleConst seated)"]
    pre p r w
  show ?thesis by (simp add: prod_eq_iff)
qed

text \<open>
  Without the condition on the requesting group the equality is not preserved: in the
  state \<open>full\<close> the counter and the ledger agree (group 2 waits), and a second table
  request of group 2 completes with \<^verbatim>\<open>groupsWaiting\<close> raised to 2 while one ledger entry
  is in the waiting phase. The receptionist reaches the allocation state of \<open>full\<close> from
  opening time, by one table request of each group.
\<close>

theorem repeated_table_request_breaks_counter:
  "wellFormed sampleConst full \<and> waitingConsistent full
   \<and> fst (provideTableOrWaitingRoom calm sampleConst 2 full) = Return ()
   \<and> \<not> waitingConsistent (snd (provideTableOrWaitingRoom calm sampleConst 2 full))
   \<and> (\<exists>s. reachable sampleConst atOpening s \<and> assignedTable s = assignedTable full
         \<and> groupRecord s = groupRecord full \<and> groupsWaiting s = groupsWaiting full)"
proof -
  have "wellFormed sampleConst full \<and> waitingConsistent full
    \<and> fst (provideTableOrWaitingRoom calm sampleConst 2 full) = Return ()
    \<and> \<not> waitingConsistent (snd (provideTableOrWaitingRoom calm sampleConst 2 full))"
    by (simp add: wellFormed_def waitingConsistent_def provideTableOrWaitingRoom_def run_simps
        scanTables.simps inRange_def calm_def sampleConst_def full_def atOpening_def
        phases_distinct phases_distinct [symmetric])
  with full_reachable show ?thesis by simp
qed

text \<open>
  C5. No double booking: from a well-formed state in which no table id is bound to two
  groups, every state reached by a sequence of completed operations of the receptionist
  (\<^verbatim>\<open>waitForGroup\<close>, \<^verbatim>\<open>provideTableOrWaitingRoom\<close>, \<^verbatim>\<open>receivePayment\<close>, for any groups
  and in any environments) again binds no table id to two groups in \<^verbatim>\<open>assignedTable\<close>.
\<close>

theorem noDoubleBooking_reachable:
  assumes "wellFormed K s0" and "noDoubleBooking s0" and "reachable K s0 s"
  shows "noDoubleBooking s"
proof -
  from assms(3) have "wellFormed K s \<and> noDoubleBooking s"
  proof (induction rule: reachable.induct)
    case start
    show ?case using assms(1,2) by simp
  next
    case (wait s e q s')
    then show ?case
      using step_wellFormed(3) waitForGroup_Return by (fastforce simp: noDoubleBooking_def)
  next
    case (provide s e n s')
    then show ?case
      using step_wellFormed(1) provide_noDoubleBooking by blast
  next
    case (pay s e n s')
    then show ?case
      using step_wellFormed(2) pay_noDoubleBooking by blast
  qed
  then show ?thesis ..
qed

theorem noDoubleBooking_reachable_witness:
  "wellFormed sampleConst atOpening \<and> noDoubleBooking atOpening
   \<and> reachable sampleConst atOpening
       (snd (provideTableOrWaitingRoom calm sampleConst 1
          (snd (provideTableOrWaitingRoom calm sampleConst 0 atOpening))))
   \<and> assignedTable (snd (provideTableOrWaitingRoom calm sampleConst 1
          (snd (provideTableOrWaitingRoom calm sampleConst 0 atOpening)))) = [0, 1, -1]
   \<and> noDoubleBooking
       (snd (provideTableOrWaitingRoom calm sampleConst 1
          (snd (provideTableOrWaitingRoom calm sampleConst 0 atOpening))))"
proof -
  let ?s1 = "snd (provideTableOrWaitingRoom calm sampleConst 0 atOpening)"
  let ?s2 = "snd (provideTableOrWaitingRoom calm sampleConst 1 ?s1)"
  have pre: "wellFormed sampleConst atOpening" "noDoubleBooking atOpening"
    by (simp_all add: wellFormed_def noDoubleBooking_def atOpening_def sampleConst_def)
  have s1: "provideTableOrWaitingRoom calm sampleConst 0 atOpening =
    (Return (),
     atOpening\<lparr>receptionistStat := 1, assignedTable := [0, -1, -1],
       groupRecord := [ATTABLE, TOARRIVE, TOARRIVE],
       trace := [SemDown mutex, SetStatus 1, SaveState 1, SemUp (waitForTable 0),
         SemUp mutex]\<rparr>)"
    by (simp add: provideTableOrWaitingRoom_def run_simps scanTables.simps inRange_def
        calm_def sampleConst_def atOpening_def)
  have s2: "fst (provideTableOrWaitingRoom calm sampleConst 1 ?s1) = Return ()"
    and tbl: "assignedTable ?s2 = [0, 1, -1]"
    unfolding s1
    by (simp_all add: provideTableOrWaitingRoom_def run_simps scanTables.simps inRange_def
        calm_def sampleConst_def atOpening_def)
  have "reachable sampleConst atOpening ?s1"
    using reachable.provide [OF reachable.start s1] by (simp add: s1)
  moreover have "provideTableOrWaitingRoom calm sampleConst 1 ?s1 = (Return (), ?s2)"
    using s2 by (simp add: prod_eq_iff)
  ultimately have reach: "reachable sampleConst atOpening ?s2"
    by (rule reachable.provide)
  from noDoubleBooking_reachable [OF pre reach] pre reach tbl
  show ?thesis by simp
qed

text \<open>
  C6. \<^verbatim>\<open>waitForGroup\<close> performs its steps in the order of the specification: publish
  the status \<^verbatim>\<open>WAIT_FOR_REQUEST\<close> under the lock, release the lock, block on ``request
  available'', reacquire the lock, copy out the pending request, release the lock, and
  only then signal ``slot free''. Every run performs an initial segment of these steps
  in this order (it stops at the first semaphore call that fails); a run that returns
  has performed them all, so that the slot was copied once, before ``slot free'', and
  the request returned is the one copied; and when no semaphore call fails the run
  returns.
\<close>

theorem waitForGroup_order:
  "(\<exists>evs. trace (snd (waitForGroup e K s)) = trace s @ evs
      \<and> prefix evs (waitForGroupOrder K (incoming e (length (trace s) + 5))))
   \<and> (\<forall>q. fst (waitForGroup e K s) = Return q \<longrightarrow>
        q = incoming e (length (trace s) + 5)
        \<and> trace (snd (waitForGroup e K s)) = trace s @ waitForGroupOrder K q)
   \<and> ((\<forall>k. semRet e k \<noteq> -1) \<longrightarrow>
        fst (waitForGroup e K s) = Return (incoming e (length (trace s) + 5)))"
proof (intro conjI allI impI)
  show "\<exists>evs. trace (snd (waitForGroup e K s)) = trace s @ evs
      \<and> prefix evs (waitForGroupOrder K (incoming e (length (trace s) + 5)))"
    by (rule waitForGroup_trace)
next
  fix q assume "fst (waitForGroup e K s) = Return q"
  then have "waitForGroup e K s = (Return q, snd (waitForGroup e K s))"
    by (metis prod.collapse)
  from waitForGroup_Return_trace [OF this]
  show "q = incoming e (length (trace s) + 5)"
    and "trace (snd (waitForGroup e K s)) = trace s @ waitForGroupOrder K q" by simp_all
next
  assume "\<forall>k. semRet e k \<noteq> -1"
  then show "fst (waitForGroup e K s) = Return (incoming e (length (trace s) + 5))"
    by (simp add: waitForGroup_calm)
qed

theorem waitForGroup_order_witness:
  "(\<forall>k. semRet calm k \<noteq> -1)
   \<and> fst (waitForGroup calm sampleConst atOpening) = Return \<lparr>reqType = 1, reqGroup = 0\<rparr>
   \<and> trace (snd (waitForGroup calm sampleConst atOpening)) =
       [SemDown mutex, SetStatus 0, SaveState 0, SemUp mutex, SemDown receptionistReq,
        SemDown mutex, CopyRequest \<lparr>reqType = 1, reqGroup = 0\<rparr>, SemUp mutex,
        SemUp receptionistRequestPossible]"
proof -
  have calm: "\<forall>k. semRet calm k \<noteq> -1"
    by (simp add: calm_def)
  note order = waitForGroup_order [of calm sampleConst atOpening]
  from order [THEN conjunct2, THEN conjunct2] calm
  have returns: "fst (waitForGroup calm sampleConst atOpening) =
      Return (incoming calm (length (trace atOpening) + 5))"
    by (rule mp)
  from order [THEN conjunct2, THEN conjunct1, THEN spec, THEN mp, OF returns]
  have "trace (snd (waitForGroup calm sampleConst atOpening)) =
      trace atOpening @
      waitForGroupOrder sampleConst (incoming calm (length (trace atOpening) + 5))"
    by (rule conjunct2)
  with returns calm show ?thesis
    by (simp add: waitForGroupOrder_def calm_def atOpening_def sampleConst_def)
qed

text \<open>
  C7. When \<^verbatim>\<open>decideTableOrWait\<close> reports ``no table'' for group \<open>n\<close>,
  \<^verbatim>\<open>provideTableOrWaitingRoom\<close> leaves every entry of \<^verbatim>\<open>assignedTable\<close> as it was and
  raises no \<^verbatim>\<open>waitForTable\<close> semaphore, however it ends. The wait branch of the decision
  changes the ledger entry of \<open>n\<close> (now \<open>WAIT\<close>) and the counter \<^verbatim>\<open>groupsWaiting\<close> (one
  more) and nothing else; when the operation completes, the rest of the difference with
  the state at entry is the status \<^verbatim>\<open>ASSIGNTABLE\<close>, published before the decision on
  both branches, and the history of the lock and of the log.
\<close>

theorem provideTableOrWaitingRoom_wait_branch:
  assumes "fst (decideTableOrWait K n s) = Return (-1)"
    and "provideTableOrWaitingRoom e K n s = (r, s')"
  shows "snd (decideTableOrWait K n s) =
      s\<lparr>groupRecord := (groupRecord s)[nat n := WAIT], groupsWaiting := groupsWaiting s + 1\<rparr>
    \<and> assignedTable s' = assignedTable s
    \<and> (\<forall>g. SemUp (waitForTable g) \<notin> set (drop (length (trace s)) (trace s')))
    \<and> (r = Return () \<longrightarrow>
         s' = s\<lparr>receptionistStat := ASSIGNTABLE K,
                groupRecord := (groupRecord s)[nat n := WAIT],
                groupsWaiting := groupsWaiting s + 1,
                trace := trace s @ [SemDown mutex, SetStatus (ASSIGNTABLE K),
                  SaveState (ASSIGNTABLE K), SemUp mutex]\<rparr>)"
proof -
  from assms(1) have none: "scanTables K (assignedTable s) 0 0 0 = Some (-1)"
    and n: "inRange n (length (groupRecord s))"
    by (simp_all add: decideTableOrWait_no_table)
  then have "snd (decideTableOrWait K n s) =
      s\<lparr>groupRecord := (groupRecord s)[nat n := WAIT], groupsWaiting := groupsWaiting s + 1\<rparr>"
    by (simp add: decideTableOrWait_def seq_def writeRecord_def)
  moreover from none n assms(2) have "assignedTable s' = assignedTable s
    \<and> (\<forall>g. SemUp (waitForTable g) \<notin> set (drop (length (trace s)) (trace s')))
    \<and> (r = Return () \<longrightarrow>
         s' = s\<lparr>receptionistStat := ASSIGNTABLE K,
                groupRecord := (groupRecord s)[nat n := WAIT],
                groupsWaiting := groupsWaiting s + 1,
                trace := trace s @ [SemDown mutex, SetStatus (ASSIGNTABLE K),
                  SaveState (ASSIGNTABLE K), SemUp mutex]\<rparr>)"
    by (auto simp: provideTableOrWaitingRoom_def run_simps split: if_splits)
  ultimately show ?thesis by simp
qed

theorem provideTableOrWaitingRoom_wait_branch_witness:
  "fst (decideTableOrWait sampleConst 2 full) = Return (-1)
   \<and> fst (provideTableOrWaitingRoom calm sampleConst 2 full) = Return ()
   \<and> assignedTable (snd (provideTableOrWaitingRoom calm sampleConst 2 full)) = [0, 1, -1]
   \<and> snd (provideTableOrWaitingRoom calm sampleConst 2 full) =
       full\<lparr>receptionistStat := 1, groupRecord := [ATTABLE, ATTABLE, WAIT],
         groupsWaiting := 2,
         trace := [SemDown mutex, SetStatus 1, SaveState 1, SemUp mutex]\<rparr>"
proof -
  have none: "fst (decideTableOrWait sampleConst 2 full) = Return (-1)"
    by (simp add: decideTableOrWait_no_table scanTables.simps inRange_def sampleConst_def
        full_def atOpening_def)
  have fin: "fst (provideTableOrWaitingRoom calm sampleConst 2 full) = Return ()"
    by (simp add: provideTableOrWaitingRoom_def run_simps scanTables.simps inRange_def
        calm_def sampleConst_def full_def atOpening_def)
  from provideTableOrWaitingRoom_wait_branch [OF none prod.collapse [symmetric], of calm]
    none fin
  show ?thesis by (simp add: full_def atOpening_def sampleConst_def)
qed

text \<open>
  C8. The exit of the life cycle. A semaphore call that fails is the last event of the
  run, and the process leaves with \<^verbatim>\<open>EXIT_FAILURE\<close>, which is not zero. When no semaphore
  call fails, no array is indexed out of its range and \<open>2 \<times> nGroups\<close> fits a 32-bit
  \<^verbatim>\<open>int\<close> (\<open>-2\<^sup>3\<^sup>0 \<le> nGroups < 2\<^sup>3\<^sup>0\<close>), the loop takes exactly \<open>2 \<times> nGroups\<close> requests
  out of the slot (none when \<open>nGroups\<close> is not positive) and the process then leaves with
  \<^verbatim>\<open>EXIT_SUCCESS\<close> if the unmapping of the shared region succeeds, with \<^verbatim>\<open>EXIT_FAILURE\<close> if
  it fails. Beyond that bound the number of requests taken is the 32-bit value of the
  product, which is not \<open>2 \<times> nGroups\<close>.
\<close>

theorem lifeCycle_exit_status:
  assumes "lifeCycle e K s = (r, s')"
  shows "(\<forall>k. length (trace s) \<le> k \<and> failedAt e (trace s') k
        \<longrightarrow> r = Exit EXIT_FAILURE \<and> Suc k = length (trace s'))
    \<and> ((\<forall>k. length (trace s) \<le> k \<longrightarrow> \<not> failedAt e (trace s') k)
         \<and> (\<forall>a i. r \<noteq> OutOfRange a i)
         \<and> - 1073741824 \<le> nGroups s \<and> nGroups s < 1073741824
        \<longrightarrow> length (filter isCopy (trace s')) =
              length (filter isCopy (trace s)) + nat (nGroups s * 2)
          \<and> r = Exit (if shmemDettach e = -1 then EXIT_FAILURE else EXIT_SUCCESS))
    \<and> ((\<forall>k. length (trace s) \<le> k \<longrightarrow> \<not> failedAt e (trace s') k)
         \<and> (\<forall>a i. r \<noteq> OutOfRange a i)
        \<longrightarrow> length (filter isCopy (trace s')) =
              length (filter isCopy (trace s)) + nat (int32 (nGroups s * 2))
          \<and> r = Exit (if shmemDettach e = -1 then EXIT_FAILURE else EXIT_SUCCESS))
    \<and> EXIT_FAILURE \<noteq> 0 \<and> EXIT_SUCCESS = 0"
proof -
  note exit = lifeCycle_exit [OF assms]
  have "length (filter isCopy (trace s')) =
        length (filter isCopy (trace s)) + nat (nGroups s * 2)
      \<and> r = Exit (if shmemDettach e = -1 then EXIT_FAILURE else EXIT_SUCCESS)"
    if "\<forall>k. length (trace s) \<le> k \<longrightarrow> \<not> failedAt e (trace s') k"
      and "\<forall>a i. r \<noteq> OutOfRange a i"
      and "- 1073741824 \<le> nGroups s" and "nGroups s < 1073741824"
    using exit [THEN conjunct2, THEN conjunct1] that(1,2) int32_double [OF that(3,4)]
    by simp
  with exit show ?thesis by blast
qed

theorem lifeCycle_exit_status_witness:
  "fst (lifeCycle oneVisit sampleConst oneGroup) = Exit EXIT_SUCCESS
   \<and> length (filter isCopy (trace (snd (lifeCycle oneVisit sampleConst oneGroup)))) = 2
   \<and> failedAt jammed (trace (snd (lifeCycle jammed sampleConst oneGroup))) 3
   \<and> fst (lifeCycle jammed sampleConst oneGroup) = Exit EXIT_FAILURE
   \<and> length (trace (snd (lifeCycle jammed sampleConst oneGroup))) = 4"
proof -
  note visit = lifeCycle_exit_status [OF prod.collapse [symmetric],
      where e = oneVisit and K = sampleConst and s = oneGroup]
  have "\<forall>k. length (trace oneGroup) \<le> k \<longrightarrow>
      \<not> failedAt oneVisit (trace (snd (lifeCycle oneVisit sampleConst oneGroup))) k"
    by (simp add: failedAt_def oneVisit_def calm_def)
  moreover have "\<forall>a i. fst (lifeCycle oneVisit sampleConst oneGroup) \<noteq> OutOfRange a i"
    by (simp add: visit_succeeds)
  moreover have "- 1073741824 \<le> nGroups oneGroup \<and> nGroups oneGroup < 1073741824"
    by (simp add: oneGroup_def atOpening_def)
  ultimately have "length (filter isCopy (trace (snd (lifeCycle oneVisit sampleConst oneGroup)))) =
      length (filter isCopy (trace oneGroup)) + nat (nGroups oneGroup * 2)"
    using visit [THEN conjunct2, THEN conjunct1] by blast
  then have served: "length (filter isCopy (trace (snd (lifeCycle oneVisit sampleConst oneGroup)))) = 2"
    by (simp add: oneGroup_def atOpening_def)
  note jam = lifeCycle_exit_status [OF prod.collapse [symmetric],
      where e = jammed and K = sampleConst and s = oneGroup]
  have failed: "failedAt jammed (trace (snd (lifeCycle jammed sampleConst oneGroup))) 3"
    by (simp add: failedAt_def jammed_trace) (simp add: jammed_def calm_def)
  moreover have "length (trace oneGroup) \<le> 3"
    by (simp add: oneGroup_def atOpening_def)
  ultimately have "fst (lifeCycle jammed sampleConst oneGroup) = Exit EXIT_FAILURE
      \<and> Suc 3 = length (trace (snd (lifeCycle jammed sampleConst oneGroup)))"
    using jam [THEN conjunct1] by blast
  with served failed visit_succeeds show ?thesis by simp
qed

text \<open>
  When group 0 has asked for a table and paid, no semaphore call having failed, and the
  unmapping of the shared region then fails, the process has taken its two requests and
  leaves with \<^verbatim>\<open>EXIT_FAILURE\<close>, not with a successful status.
\<close>

theorem detach_failure_exit_status:
  "fst (lifeCycle detachFails sampleConst oneGroup) = Exit EXIT_FAILURE
   \<and> EXIT_FAILURE \<noteq> EXIT_SUCCESS
   \<and> (\<forall>k. semRet detachFails k \<noteq> -1)
   \<and> length (filter isCopy (trace (snd (lifeCycle detachFails sampleConst oneGroup)))) = 2"
  by (simp add: life_simps sample_defs EXIT_FAILURE_def EXIT_SUCCESS_def)

text \<open>
  C9. The ``no candidate'' answer of \<^verbatim>\<open>decideNextGroup\<close> is idempotent: in every state
  in which it returns \<open>-1\<close>, whether because the counter is zero or because the scan of
  the ledger finds no waiting group, it leaves the state as it was, so that a second
  call right after the first returns \<open>-1\<close> again, and neither \<^verbatim>\<open>groupsWaiting\<close> nor any
  entry of the ledger has changed.
\<close>

theorem decideNextGroup_no_candidate_idempotent:
  assumes "decideNextGroup K s = (Return (-1), s')"
  shows "decideNextGroup K s' = (Return (-1), s')
    \<and> groupsWaiting s' = groupsWaiting s \<and> groupRecord s' = groupRecord s"
proof -
  have "s' = s"
    using assms
    by (auto simp: decideNextGroup_def split: if_splits dest: nextGroupLoop_no_candidate)
  then show ?thesis using assms by simp
qed

theorem decideNextGroup_no_candidate_idempotent_witness:
  "decideNextGroup sampleConst atOpening = (Return (-1), atOpening)
   \<and> decideNextGroup sampleConst atOpening = (Return (-1), atOpening)
   \<and> groupsWaiting atOpening = groupsWaiting atOpening
   \<and> groupRecord atOpening = groupRecord atOpening"
proof -
  have first: "decideNextGroup sampleConst atOpening = (Return (-1), atOpening)"
    by (simp add: decideNextGroup_def atOpening_def)
  show ?thesis
    using first decideNextGroup_no_candidate_idempotent [OF first] by simp
qed

text \<open>
  C10. \<^verbatim>\<open>receivePayment (n)\<close> raises no \<^verbatim>\<open>tableDone\<close> semaphore but the one at the
  index \<^verbatim>\<open>assignedTable[n]\<close> read at entry, and a run that completes has raised it last.
  When that index is a table id (\<open>0 \<le> assignedTable[n] < NUMTABLES\<close>), no array is
  indexed out of its range. When it is not, and no semaphore call fails, the run reaches
  the access \<^verbatim>\<open>sh->tableDone[tableId]\<close> out of the range of the array; so it is for a
  bill request of a group that holds no table (\<open>assignedTable[n] = -1\<close>), as group 0 at
  opening time.
\<close>

theorem receivePayment_vacancy_index:
  assumes "wellFormed K s" and "inRange n (MAXGROUPS K)"
    and "receivePayment e K n s = (r, s')"
  shows "(\<forall>x. SemUp (tableDone x) \<in> set (drop (length (trace s)) (trace s'))
        \<longrightarrow> x = assignedTable s ! nat n)
    \<and> (r = Return () \<longrightarrow> last (trace s') = SemUp (tableDone (assignedTable s ! nat n)))
    \<and> (inRange (assignedTable s ! nat n) (NUMTABLES K) \<longrightarrow> (\<forall>a i. r \<noteq> OutOfRange a i))
    \<and> (\<not> inRange (assignedTable s ! nat n) (NUMTABLES K) \<and> (\<forall>k. semRet e k \<noteq> -1)
        \<longrightarrow> r = OutOfRange A_tableDone (assignedTable s ! nat n))
    \<and> fst (receivePayment calm sampleConst 0 atOpening) = OutOfRange A_tableDone (-1)"
  using receivePayment_vacancy [OF assms] unseated_payment by simp

theorem receivePayment_vacancy_index_witness:
  "wellFormed sampleConst seated \<and> inRange 0 (MAXGROUPS sampleConst)
   \<and> inRange (assignedTable seated ! nat 0) (NUMTABLES sampleConst)
   \<and> fst (receivePayment calm sampleConst 0 seated) = Return ()
   \<and> last (trace (snd (receivePayment calm sampleConst 0 seated))) = SemUp (tableDone 0)
   \<and> wellFormed sampleConst atOpening
   \<and> \<not> inRange (assignedTable atOpening ! nat 0) (NUMTABLES sampleConst)
   \<and> (\<forall>k. semRet calm k \<noteq> -1)
   \<and> fst (receivePayment calm sampleConst 0 atOpening) = OutOfRange A_tableDone (-1)"
proof -
  have pre: "wellFormed sampleConst seated" "inRange 0 (MAXGROUPS sampleConst)"
    "inRange (assignedTable seated ! nat 0) (NUMTABLES sampleConst)"
    "wellFormed sampleConst atOpening"
    "\<not> inRange (assignedTable atOpening ! nat 0) (NUMTABLES sampleConst)"
    "\<forall>k. semRet calm k \<noteq> -1"
    by (simp_all add: wellFormed_def inRange_def seated_def atOpening_def sampleConst_def
        calm_def)
  have fin: "fst (receivePayment calm sampleConst 0 seated) = Return ()"
    by (simp add: receivePayment_def run_simps decideNextGroup_def inRange_def
        calm_def sampleConst_def seated_def atOpening_def)
  from receivePayment_vacancy_index [OF pre(1,2) prod.collapse [symmetric], of calm] fin
  have last: "last (trace (snd (receivePayment calm sampleConst 0 seated))) =
      SemUp (tableDone 0)"
    by (simp add: seated_def atOpening_def)
  from receivePayment_vacancy_index [OF pre(4,2) prod.collapse [symmetric], of calm] pre
  have "fst (receivePayment calm sampleConst 0 atOpening) = OutOfRange A_tableDone (-1)"
    by (simp add: atOpening_def)
  with pre fin last show ?thesis by simp
qed

end
